theory Spec2Isabelle
  imports Complex_Main "HOL-Library.Product_Lexorder"
begin

section \<open>Battleship targeting engine: the data model of \<open>ai.py\<close>\<close>

text \<open>
  A cell is a pair \<open>(x, y)\<close> of Python integers (column, row). Python integers are
  unbounded and may be negative, so coordinates are \<^typ>\<open>int\<close>.
\<close>

type_synonym cell = "int \<times> int"

text \<open>\<open>range(n)\<close> of Python: the integers \<open>0 .. n - 1\<close>, empty when \<open>n \<le> 0\<close>.\<close>

definition range_py :: "int \<Rightarrow> int list" where
  "range_py n = [0..n - 1]"

text \<open>The dataclass \<open>ShipInfo\<close>.\<close>

record ship_info =
  size_ship :: int
  hits_ship :: "cell list"
  orientation :: "string option"
  sunk :: bool

text \<open>
  The fields of \<open>BaseAI\<close>. The numpy array \<open>heat_map\<close> is a list of
  \<open>board_size\<close> rows of \<open>board_size\<close> counters, read as \<open>heat_map[y][x]\<close>; its
  entries are only ever set to zero and incremented by one, so they are natural numbers.
\<close>

record base_ai =
  board_size :: int
  shots_fired :: "cell list"
  hits :: "cell list"
  misses :: "cell list"
  ships_sunk :: "ship_info list"
  possible_targets :: "cell list"
  ship_sizes :: "int list"
  remaining_ship_sizes :: "int list"
  current_targets :: "cell list"
  ship_segments :: "cell list list"
  heat_map :: "nat list list"
  last_shot_result :: "string option"

definition zeros :: "int \<Rightarrow> nat list list" where
  "zeros n = replicate (nat n) (replicate (nat n) 0)"

text \<open>\<open>BaseAI.__init__\<close>.\<close>

definition BaseAI_init :: "int \<Rightarrow> base_ai" where
  "BaseAI_init bs =
     \<lparr> board_size = bs,
       shots_fired = [],
       hits = [],
       misses = [],
       ships_sunk = [],
       possible_targets = concat (map (\<lambda>x. map (\<lambda>y. (x, y)) (range_py bs)) (range_py bs)),
       ship_sizes = [5, 4, 3, 3, 2],
       remaining_ship_sizes = [5, 4, 3, 3, 2],
       current_targets = [],
       ship_segments = [],
       heat_map = zeros bs,
       last_shot_result = None \<rparr>"

subsection \<open>The heat map\<close>

text \<open>
  \<open>heat_map[y][x]\<close> for a cell of the board, and \<open>heat_map[y][x] += 1\<close>. The writes
  come from loops over \<open>range\<close>, so their indices are on the board. \<open>heat_at\<close> states
  the score of a cell of the board; it is used for cells of the board only (it is \<open>0\<close>
  elsewhere, where numpy raises \<open>IndexError\<close> or wraps a negative index). The reads the
  engines make at cells of \<open>possible_targets\<close> are modelled by \<open>heat_lookup\<close> below,
  which follows numpy outside the board too.
\<close>

definition heat_at :: "nat list list \<Rightarrow> int \<Rightarrow> int \<Rightarrow> nat" where
  "heat_at hm x y =
     (if 0 \<le> y \<and> nat y < length hm \<and> 0 \<le> x \<and> nat x < length (hm ! nat y)
      then hm ! nat y ! nat x else 0)"

definition heat_incr :: "nat list list \<Rightarrow> int \<Rightarrow> int \<Rightarrow> nat list list" where
  "heat_incr hm x y =
     (if 0 \<le> y \<and> 0 \<le> x
      then hm[nat y := (hm ! nat y)[nat x := hm ! nat y ! nat x + 1]] else hm)"

text \<open>\<open>BaseAI._can_place_ship\<close>.\<close>

definition positions_of :: "int \<Rightarrow> int \<Rightarrow> int \<Rightarrow> bool \<Rightarrow> cell list" where
  "positions_of x y sz horizontal =
     (if horizontal then map (\<lambda>i. (x + i, y)) (range_py sz)
      else map (\<lambda>i. (x, y + i)) (range_py sz))"

definition can_place_ship :: "'a base_ai_scheme \<Rightarrow> int \<Rightarrow> int \<Rightarrow> int \<Rightarrow> bool \<Rightarrow> bool" where
  "can_place_ship s x y sz horizontal =
     (let positions = positions_of x y sz horizontal in
      if list_ex (\<lambda>(px, py). px \<ge> board_size s \<or> py \<ge> board_size s \<or> (px, py) \<in> set (misses s))
           positions
      then False
      else
        let hit_count = length (filter (\<lambda>p. p \<in> set (hits s)) positions) in
        if hit_count > 0 then
          let line_hits = filter (\<lambda>p. p \<in> set (hits s)) positions in
          if length line_hits > 1 then
            if horizontal then
              let xs = sort (map fst line_hits) in
              if last xs - hd xs \<noteq> int (length xs) - 1 then False else True
            else
              let ys = sort (map snd line_hits) in
              if last ys - hd ys \<noteq> int (length ys) - 1 then False else True
          else True
        else True)"

text \<open>\<open>BaseAI._update_heat_map\<close>: the array is cleared, then every accepted placement adds
  one to each cell it covers.\<close>

definition add_placement :: "cell list \<Rightarrow> nat list list \<Rightarrow> nat list list" where
  "add_placement ps hm = fold (\<lambda>(px, py) h. heat_incr h px py) ps hm"

definition horizontal_pass :: "'a base_ai_scheme \<Rightarrow> int \<Rightarrow> nat list list \<Rightarrow> nat list list" where
  "horizontal_pass s sz hm =
     fold (\<lambda>y h.
        fold (\<lambda>x h.
           if can_place_ship s x y sz True
           then fold (\<lambda>i h. heat_incr h (x + i) y) (range_py sz) h
           else h)
          (range_py (board_size s - sz + 1)) h)
       (range_py (board_size s)) hm"

definition vertical_pass :: "'a base_ai_scheme \<Rightarrow> int \<Rightarrow> nat list list \<Rightarrow> nat list list" where
  "vertical_pass s sz hm =
     fold (\<lambda>y h.
        fold (\<lambda>x h.
           if can_place_ship s x y sz False
           then fold (\<lambda>i h. heat_incr h x (y + i)) (range_py sz) h
           else h)
          (range_py (board_size s)) h)
       (range_py (board_size s - sz + 1)) hm"

definition compute_heat_map :: "'a base_ai_scheme \<Rightarrow> nat list list" where
  "compute_heat_map s =
     fold (\<lambda>sz h. vertical_pass s sz (horizontal_pass s sz h))
       (remaining_ship_sizes s) (zeros (board_size s))"

definition update_heat_map :: "'a base_ai_scheme \<Rightarrow> 'a base_ai_scheme" where
  "update_heat_map s = s\<lparr>heat_map := compute_heat_map s\<rparr>"


subsection \<open>The placement count the heat map is specified to hold\<close>

definition in_board :: "int \<Rightarrow> cell \<Rightarrow> bool" where
  "in_board n c = (0 \<le> fst c \<and> fst c < n \<and> 0 \<le> snd c \<and> snd c < n)"

text \<open>A heat map of the right shape: \<open>n\<close> rows of \<open>n\<close> entries.\<close>

definition rect :: "nat list list \<Rightarrow> int \<Rightarrow> bool" where
  "rect hm n = (int (length hm) = n \<and> (\<forall>row\<in>set hm. int (length row) = n))"

text \<open>
  The specification's reading of the field, independent of the loops above: a placement
  window of length \<open>L\<close> starts at \<open>(x0, y0)\<close> and runs along a row or a column; it is
  rejected when a cell of it is off the board, when a cell of it is a known miss, or when
  the hits it contains do not form a contiguous run along the axis (their span between
  largest and smallest coordinate differs from their number minus one). The score of a cell
  is the number of accepted windows that cover it, over every remaining length and both
  orientations.
\<close>

definition window :: "int \<Rightarrow> int \<Rightarrow> int \<Rightarrow> bool \<Rightarrow> cell set" where
  "window x0 y0 L horizontal =
     (if horizontal then (\<lambda>i. (x0 + i, y0)) ` {0..<L} else (\<lambda>i. (x0, y0 + i)) ` {0..<L})"

definition window_hits :: "'a base_ai_scheme \<Rightarrow> int \<Rightarrow> int \<Rightarrow> int \<Rightarrow> bool \<Rightarrow> int set" where
  "window_hits s x0 y0 L horizontal =
     (if horizontal then fst else snd) ` (window x0 y0 L horizontal \<inter> set (hits s))"

definition window_rejected :: "'a base_ai_scheme \<Rightarrow> int \<Rightarrow> int \<Rightarrow> int \<Rightarrow> bool \<Rightarrow> bool" where
  "window_rejected s x0 y0 L horizontal =
     ((\<exists>c\<in>window x0 y0 L horizontal. \<not> in_board (board_size s) c) \<or>
      (\<exists>c\<in>window x0 y0 L horizontal. c \<in> set (misses s)) \<or>
      (window_hits s x0 y0 L horizontal \<noteq> {} \<and>
       Max (window_hits s x0 y0 L horizontal) - Min (window_hits s x0 y0 L horizontal)
         \<noteq> int (card (window_hits s x0 y0 L horizontal)) - 1))"

definition accepted_windows :: "'a base_ai_scheme \<Rightarrow> int \<Rightarrow> bool \<Rightarrow> cell \<Rightarrow> cell set" where
  "accepted_windows s L horizontal c =
     {(x0, y0). \<not> window_rejected s x0 y0 L horizontal \<and> c \<in> window x0 y0 L horizontal}"

definition placement_count :: "'a base_ai_scheme \<Rightarrow> cell \<Rightarrow> nat" where
  "placement_count s c =
     (\<Sum>L\<leftarrow>remaining_ship_sizes s.
        card (accepted_windows s L True c) + card (accepted_windows s L False c))"

text \<open>The cells the loops of \<open>_update_heat_map\<close> increment, in the order they do.\<close>

definition placed_cells :: "'a base_ai_scheme \<Rightarrow> int \<Rightarrow> bool \<Rightarrow> int list \<Rightarrow> int list \<Rightarrow> cell list" where
  "placed_cells s sz horizontal ys xs =
     concat (map (\<lambda>y. concat (map (\<lambda>x.
        if can_place_ship s x y sz horizontal then positions_of x y sz horizontal else []) xs)) ys)"

definition all_placed_cells :: "'a base_ai_scheme \<Rightarrow> cell list" where
  "all_placed_cells s =
     concat (map (\<lambda>sz.
        placed_cells s sz True (range_py (board_size s)) (range_py (board_size s - sz + 1)) @
        placed_cells s sz False (range_py (board_size s - sz + 1)) (range_py (board_size s)))
       (remaining_ship_sizes s))"

subsection \<open>Reconstructing a sunk ship\<close>

text \<open>The four orthogonal neighbours, in the order the source lists the offsets.\<close>

definition neighbours4 :: "cell \<Rightarrow> cell list" where
  "neighbours4 c = map (\<lambda>(dx, dy). (fst c + dx, snd c + dy)) [(0, 1), (1, 0), (0, -1), (-1, 0)]"

definition board_cells :: "int \<Rightarrow> cell set" where
  "board_cells n = {0..<n} \<times> {0..<n}"

lemma in_board_board_cells: "in_board n c \<longleftrightarrow> c \<in> board_cells n"
  by (cases c) (auto simp: in_board_def board_cells_def)

lemma finite_board_cells: "finite (board_cells n)"
  by (simp add: board_cells_def)

text \<open>
  The \<open>while\<close> loop of \<open>BaseAI._find_ship_from_last_hit\<close>: a breadth-first search from the
  queue's cells over hit cells, which stops as soon as \<open>size\<close> cells are collected or the
  queue is empty. It terminates: every turn either visits a new cell of the board or of the
  queue, or shortens the queue.
\<close>

function find_ship_loop ::
  "int \<Rightarrow> cell list \<Rightarrow> int \<Rightarrow> cell list \<Rightarrow> cell set \<Rightarrow> cell list \<Rightarrow> cell list" where
  "find_ship_loop bs hs sz [] visited ship_hits = ship_hits"
| "find_ship_loop bs hs sz (c # queue) visited ship_hits =
     (if int (length ship_hits) < sz then
        if c \<in> visited then find_ship_loop bs hs sz queue visited ship_hits
        else if c \<in> set hs then
          find_ship_loop bs hs sz
            (queue @ filter (\<lambda>n. in_board bs n \<and> n \<notin> insert c visited) (neighbours4 c))
            (insert c visited) (ship_hits @ [c])
        else find_ship_loop bs hs sz queue (insert c visited) ship_hits
      else ship_hits)"
  by pat_completeness auto
termination
proof (relation "measures
    [\<lambda>(bs, hs, sz, queue, visited, ship_hits). card ((board_cells bs \<union> set queue) - visited),
     \<lambda>(bs, hs, sz, queue, visited, ship_hits). length queue]")
  show "wf (measures
    [\<lambda>(bs, hs, sz, queue, visited, ship_hits). card ((board_cells bs \<union> set queue) - visited),
     \<lambda>(bs, hs, sz, queue, visited, ship_hits). length queue])"
    by simp
next
  fix bs :: int and hs :: "cell list" and sz :: int and c :: cell and queue :: "cell list"
    and visited :: "cell set" and ship_hits :: "cell list"
  have "card ((board_cells bs \<union> set queue) - visited)
        \<le> card ((board_cells bs \<union> set (c # queue)) - visited)"
    by (rule card_mono) (auto simp: finite_board_cells)
  then show "((bs, hs, sz, queue, visited, ship_hits), (bs, hs, sz, c # queue, visited, ship_hits))
      \<in> measures
    [\<lambda>(bs, hs, sz, queue, visited, ship_hits). card ((board_cells bs \<union> set queue) - visited),
     \<lambda>(bs, hs, sz, queue, visited, ship_hits). length queue]"
    by auto
next
  fix bs :: int and hs :: "cell list" and sz :: int and c :: cell and queue :: "cell list"
    and visited :: "cell set" and ship_hits :: "cell list"
  assume "c \<notin> visited"
  then have "(board_cells bs \<union>
                set (queue @ filter (\<lambda>n. in_board bs n \<and> n \<notin> insert c visited) (neighbours4 c)))
              - insert c visited
           \<subset> (board_cells bs \<union> set (c # queue)) - visited"
    by (auto simp: in_board_board_cells)
  then have "card ((board_cells bs \<union>
                set (queue @ filter (\<lambda>n. in_board bs n \<and> n \<notin> insert c visited) (neighbours4 c)))
              - insert c visited)
           < card ((board_cells bs \<union> set (c # queue)) - visited)"
    by (rule psubset_card_mono[rotated]) (auto simp: finite_board_cells)
  then show "((bs, hs, sz,
        queue @ filter (\<lambda>n. in_board bs n \<and> n \<notin> insert c visited) (neighbours4 c),
        insert c visited, ship_hits @ [c]),
       (bs, hs, sz, c # queue, visited, ship_hits))
      \<in> measures
    [\<lambda>(bs, hs, sz, queue, visited, ship_hits). card ((board_cells bs \<union> set queue) - visited),
     \<lambda>(bs, hs, sz, queue, visited, ship_hits). length queue]"
    by simp
next
  fix bs :: int and hs :: "cell list" and sz :: int and c :: cell and queue :: "cell list"
    and visited :: "cell set" and ship_hits :: "cell list"
  assume "c \<notin> visited"
  then have "(board_cells bs \<union> set queue) - insert c visited
           \<subset> (board_cells bs \<union> set (c # queue)) - visited"
    by auto
  then have "card ((board_cells bs \<union> set queue) - insert c visited)
           < card ((board_cells bs \<union> set (c # queue)) - visited)"
    by (rule psubset_card_mono[rotated]) (auto simp: finite_board_cells)
  then show "((bs, hs, sz, queue, insert c visited, ship_hits),
       (bs, hs, sz, c # queue, visited, ship_hits))
      \<in> measures
    [\<lambda>(bs, hs, sz, queue, visited, ship_hits). card ((board_cells bs \<union> set queue) - visited),
     \<lambda>(bs, hs, sz, queue, visited, ship_hits). length queue]"
    by simp
qed

declare find_ship_loop.simps [simp del]

text \<open>\<open>BaseAI._find_ship_from_last_hit\<close>.\<close>

definition find_ship_from_last_hit :: "'a base_ai_scheme \<Rightarrow> int \<Rightarrow> int \<Rightarrow> int \<Rightarrow> cell list" where
  "find_ship_from_last_hit s x y sz =
     (let ship_hits = find_ship_loop (board_size s) (hits s) sz [(x, y)] {} []
      in if int (length ship_hits) = sz then ship_hits else [])"

text \<open>\<open>BaseAI._clear_adjacent_targets\<close>: the three nested \<open>for\<close> loops, each removing the
  first occurrence of a cell that is on the board and still a target.\<close>

definition clear_adjacent_targets :: "int \<Rightarrow> cell list \<Rightarrow> cell list \<Rightarrow> cell list" where
  "clear_adjacent_targets bs ship_positions targets =
     fold (\<lambda>(x, y) t.
        fold (\<lambda>dx t.
           fold (\<lambda>dy t.
              if in_board bs (x + dx, y + dy) \<and> (x + dx, y + dy) \<in> set t
              then remove1 (x + dx, y + dy) t else t)
             [-1, 0, 1] t)
          [-1, 0, 1] t)
       ship_positions targets"

text \<open>
  \<open>BaseAI.update_after_guess\<close>. The optional \<open>sunk_ship_size\<close> is \<open>None\<close> or an integer;
  the test \<open>is_sunk and sunk_ship_size\<close> holds for a non-zero integer only. No path of the
  method raises: every removal from a list is guarded by a membership test.
\<close>

definition update_after_guess ::
  "'a base_ai_scheme \<Rightarrow> int \<Rightarrow> int \<Rightarrow> bool \<Rightarrow> bool \<Rightarrow> int option \<Rightarrow> 'a base_ai_scheme" where
  "update_after_guess s x y is_hit is_sunk sunk_ship_size =
     (let s1 = s\<lparr>shots_fired := shots_fired s @ [(x, y)]\<rparr>;
          s2 =
            (if is_hit then
               let sh = s1\<lparr>hits := hits s1 @ [(x, y)], last_shot_result := Some ''hit''\<rparr> in
               (case sunk_ship_size of
                  None \<Rightarrow> sh
                | Some sz \<Rightarrow>
                    if is_sunk \<and> sz \<noteq> 0 then
                      let ship_hits = find_ship_from_last_hit sh x y sz in
                      if ship_hits \<noteq> [] then
                        let sk = sh\<lparr>ships_sunk := ships_sunk sh @
                                   [\<lparr>size_ship = sz, hits_ship = ship_hits,
                                     orientation = None, sunk = True\<rparr>]\<rparr>;
                            sr = (if sz \<in> set (remaining_ship_sizes sk)
                                  then sk\<lparr>remaining_ship_sizes := remove1 sz (remaining_ship_sizes sk)\<rparr>
                                  else sk)
                        in sr\<lparr>possible_targets :=
                                clear_adjacent_targets (board_size sr) ship_hits (possible_targets sr)\<rparr>
                      else sh
                    else sh)
             else s1\<lparr>misses := misses s1 @ [(x, y)], last_shot_result := Some ''miss''\<rparr>);
          s3 = (if (x, y) \<in> set (possible_targets s2)
                then s2\<lparr>possible_targets := remove1 (x, y) (possible_targets s2)\<rparr>
                else s2)
      in update_heat_map s3)"

text \<open>\<open>BaseAI._get_adjacent_positions\<close>.\<close>

definition get_adjacent_positions :: "'a base_ai_scheme \<Rightarrow> int \<Rightarrow> int \<Rightarrow> cell list" where
  "get_adjacent_positions s x y =
     filter (\<lambda>n. in_board (board_size s) n \<and> n \<in> set (possible_targets s)) (neighbours4 (x, y))"

subsection \<open>The interface of the specification\<close>

text \<open>
  The specification names the outcome of a shot and the operation that records it.
  \<open>record_shot_result\<close> is \<open>update_after_guess\<close> called as the host does (\<open>is_hit\<close>,
  \<open>is_sunk\<close> and the sunk ship's size taken from the outcome). The Python method returns
  normally on every path, so the result is always on the right of the sum.
\<close>

datatype shot_outcome = Miss | Hit | HitAndSunk int

datatype engine_error = InvalidShot | UnknownShipLength | ReconstructionAmbiguous | NoTargetsRemaining

fun record_shot_result :: "'a base_ai_scheme \<Rightarrow> cell \<Rightarrow> shot_outcome \<Rightarrow> engine_error + 'a base_ai_scheme" where
  "record_shot_result s (x, y) Miss = Inr (update_after_guess s x y False False None)"
| "record_shot_result s (x, y) Hit = Inr (update_after_guess s x y True False None)"
| "record_shot_result s (x, y) (HitAndSunk L) = Inr (update_after_guess s x y True True (Some L))"

text \<open>The hit cells connected to a start cell through orthogonal steps between hit cells
  on the board (the start itself need not be on the board: the source does not test it).\<close>

inductive_set hit_component :: "int \<Rightarrow> cell list \<Rightarrow> cell \<Rightarrow> cell set"
  for bs :: int and hs :: "cell list" and start :: cell where
  start: "start \<in> set hs \<Longrightarrow> start \<in> hit_component bs hs start"
| step: "c \<in> hit_component bs hs start \<Longrightarrow> n \<in> set (neighbours4 c) \<Longrightarrow> in_board bs n \<Longrightarrow>
         n \<in> set hs \<Longrightarrow> n \<in> hit_component bs hs start"

text \<open>The states the engine can be in: a fresh \<open>BaseAI\<close> of any board size, and what
  \<open>update_after_guess\<close> makes of a reachable state.\<close>

inductive reachable :: "base_ai \<Rightarrow> bool" where
  init: "0 \<le> bs \<Longrightarrow> reachable (BaseAI_init bs)"
| update: "reachable s \<Longrightarrow> reachable (update_after_guess s x y is_hit is_sunk sunk_ship_size)"

text \<open>Chebyshev distance at most one: the cell itself and its eight neighbours.\<close>

definition chebyshev_near :: "cell \<Rightarrow> cell \<Rightarrow> bool" where
  "chebyshev_near c n = (\<bar>fst n - fst c\<bar> \<le> 1 \<and> \<bar>snd n - snd c\<bar> \<le> 1)"

text \<open>The targets of every reachable state are distinct cells of the board, none of them
  fired at.\<close>

definition targets_ok :: "'a base_ai_scheme \<Rightarrow> bool" where
  "targets_ok s =
     (distinct (possible_targets s) \<and>
      list_all (in_board (board_size s)) (possible_targets s) \<and>
      list_all (\<lambda>c. c \<notin> set (shots_fired s)) (possible_targets s))"

text \<open>One step of \<open>_clear_adjacent_targets\<close>, and the nine cells it visits around a
  ship cell, in the order of the two inner loops.\<close>

definition purge_one :: "int \<Rightarrow> cell \<Rightarrow> cell list \<Rightarrow> cell list" where
  "purge_one bs n t = (if in_board bs n \<and> n \<in> set t then remove1 n t else t)"

definition around :: "cell \<Rightarrow> cell list" where
  "around c = concat (map (\<lambda>dx. map (\<lambda>dy. (fst c + dx, snd c + dy)) [-1, 0, 1]) [-1, 0, 1])"

text \<open>The ship that \<open>update_after_guess\<close> reconstructs for its arguments, or \<open>[]\<close> when it
  records no sinking.\<close>

definition sunk_ship_of ::
  "'a base_ai_scheme \<Rightarrow> int \<Rightarrow> int \<Rightarrow> bool \<Rightarrow> bool \<Rightarrow> int option \<Rightarrow> cell list" where
  "sunk_ship_of s x y is_hit is_sunk sunk_ship_size =
     (case sunk_ship_size of
        None \<Rightarrow> []
      | Some sz \<Rightarrow>
          if is_hit \<and> is_sunk \<and> sz \<noteq> 0
          then find_ship_from_last_hit
                 (s\<lparr>shots_fired := shots_fired s @ [(x, y)], hits := hits s @ [(x, y)],
                    last_shot_result := Some ''hit''\<rparr>) x y sz
          else [])"

text \<open>The last step of \<open>update_after_guess\<close> on the targets: the fired cell is removed when
  it is among them.\<close>

definition remove_fired :: "cell \<Rightarrow> cell list \<Rightarrow> cell list" where
  "remove_fired n t = (if n \<in> set t then remove1 n t else t)"

text \<open>Two states of a 10 by 10 game used as examples: after a first hit at \<open>(0, 0)\<close>; and
  after that ship of length 2 was sunk at \<open>(0, 1)\<close> and another ship was hit at \<open>(5, 5)\<close>.\<close>

definition one_hit :: base_ai where
  "one_hit = update_after_guess (BaseAI_init 10) 0 0 True False None"

definition sunk_two_then_hit :: base_ai where
  "sunk_two_then_hit =
     update_after_guess (update_after_guess one_hit 0 1 True True (Some 2)) 5 5 True False None"

text \<open>The accepted windows of one length and orientation that cover a cell, counted by the
  offset of the cell inside the window: a short way to evaluate a single score.\<close>

definition covering_count :: "'a base_ai_scheme \<Rightarrow> int \<Rightarrow> bool \<Rightarrow> cell \<Rightarrow> nat" where
  "covering_count s L horizontal c =
     length (filter (\<lambda>i.
        if horizontal
        then 0 \<le> fst c - i \<and> fst c - i \<le> board_size s - L \<and> can_place_ship s (fst c - i) (snd c) L True
        else 0 \<le> snd c - i \<and> snd c - i \<le> board_size s - L \<and> can_place_ship s (fst c) (snd c - i) L False)
       (range_py L))"

definition cell_score :: "'a base_ai_scheme \<Rightarrow> cell \<Rightarrow> nat" where
  "cell_score s c = (\<Sum>L\<leftarrow>remaining_ship_sizes s. covering_count s L True c + covering_count s L False c)"


section \<open>The hunt and target engine: \<open>ImprovedHuntTargetAI\<close>\<close>

text \<open>
  The exceptions of Python that the engine code can raise, and the library functions that
  raise them. A random choice is made by an index the caller supplies (any natural number,
  reduced modulo the length), so that every outcome of \<open>random.choice\<close> is the value of the
  model for some index.
\<close>

datatype py_error = IndexError | ValueError | ZeroDivisionError | NotImplementedError

definition random_choice :: "'a list \<Rightarrow> nat \<Rightarrow> py_error + 'a" where
  "random_choice xs k = (if xs = [] then Inl IndexError else Inr (xs ! (k mod length xs)))"

text \<open>\<open>max(x :: xs, key=f)\<close>: the first element whose key is maximal.\<close>

definition max_by_key :: "('a \<Rightarrow> 'k::linorder) \<Rightarrow> 'a \<Rightarrow> 'a list \<Rightarrow> 'a" where
  "max_by_key f x xs = fold (\<lambda>c best. if f c > f best then c else best) xs x"

text \<open>\<open>min\<close> and \<open>max\<close> of a list \<open>x :: xs\<close> of integers.\<close>

definition py_min :: "int \<Rightarrow> int list \<Rightarrow> int" where
  "py_min x xs = fold (\<lambda>c best. if c < best then c else best) xs x"

definition py_max :: "int \<Rightarrow> int list \<Rightarrow> int" where
  "py_max x xs = fold (\<lambda>c best. if c > best then c else best) xs x"

text \<open>The enumeration \<open>ShotPattern\<close>. The host assigns the configuration's string to
  \<open>hunt_pattern\<close>, which then equals no member of the enumeration.\<close>

datatype shot_pattern = RANDOM | DIAGONAL | CHECKERBOARD | SPIRAL | EDGES_FIRST | CENTER_FIRST

datatype pattern_value = Enum shot_pattern | Str string

record hunt_ai = base_ai +
  hunt_pattern :: pattern_value
  target_mode :: bool
  current_ship_hits :: "cell list"
  priority_targets :: "cell list"

definition ImprovedHuntTargetAI_init :: "int \<Rightarrow> hunt_ai" where
  "ImprovedHuntTargetAI_init bs =
     base_ai.extend (BaseAI_init bs)
       (hunt_ai.fields (Enum CHECKERBOARD) False [] [])"

text \<open>
  Indexing as Python and numpy do it: an index \<open>i\<close> into a sequence of length \<open>n\<close> is
  valid when \<open>-n \<le> i < n\<close>, a negative index counting from the end; any other index
  raises \<open>IndexError\<close> (here \<open>None\<close>).
\<close>

definition py_index :: "nat \<Rightarrow> int \<Rightarrow> nat option" where
  "py_index n i =
     (if 0 \<le> i \<and> i < int n then Some (nat i)
      else if - int n \<le> i \<and> i < 0 then Some (nat (i + int n))
      else None)"

text \<open>The key of the heat map lookups: \<open>self.heat_map[p[1]][p[0]]\<close>.\<close>

definition heat_lookup :: "nat list list \<Rightarrow> cell \<Rightarrow> nat option" where
  "heat_lookup hm p =
     (case py_index (length hm) (snd p) of
        None \<Rightarrow> None
      | Some r \<Rightarrow>
          (case py_index (length (hm ! r)) (fst p) of
             None \<Rightarrow> None
           | Some c \<Rightarrow> Some (hm ! r ! c)))"

text \<open>\<open>max(x :: xs, key=lambda p: self.heat_map[p[1]][p[0]])\<close>: the key of every element
  is computed, so a lookup out of range raises.\<close>

definition max_by_heat :: "nat list list \<Rightarrow> cell \<Rightarrow> cell list \<Rightarrow> py_error + cell" where
  "max_by_heat hm x xs =
     (if list_all (\<lambda>p. heat_lookup hm p \<noteq> None) (x # xs)
      then Inr (max_by_key (\<lambda>p. the (heat_lookup hm p)) x xs)
      else Inl IndexError)"

text \<open>The hits that belong to no sunk ship.\<close>

definition unsunk_hits :: "'a base_ai_scheme \<Rightarrow> cell list" where
  "unsunk_hits s =
     filter (\<lambda>hit. \<not> list_ex (\<lambda>ship. hit \<in> set (hits_ship ship)) (ships_sunk s)) (hits s)"

subsection \<open>Hunt mode\<close>

text \<open>The diagonal pattern: the targets of the first anti-diagonal \<open>x + y = d\<close> that has
  one.\<close>

definition diagonal_cells :: "'a base_ai_scheme \<Rightarrow> int \<Rightarrow> cell list" where
  "diagonal_cells s d =
     filter (\<lambda>(x, y). 0 \<le> y \<and> y < board_size s \<and> (x, y) \<in> set (possible_targets s))
       (map (\<lambda>x. (x, d - x)) (range_py (board_size s)))"

fun first_nonempty :: "'a list list \<Rightarrow> 'a list" where
  "first_nonempty [] = []"
| "first_nonempty (c # cs) = (if c \<noteq> [] then c else first_nonempty cs)"

definition hunt_candidates :: "'a hunt_ai_scheme \<Rightarrow> cell list" where
  "hunt_candidates s =
     (if hunt_pattern s = Enum CHECKERBOARD then
        let candidates = filter (\<lambda>(x, y). (x + y) mod 2 = 0) (possible_targets s)
        in if candidates = [] then possible_targets s else candidates
      else if hunt_pattern s = Enum DIAGONAL then
        first_nonempty (map (diagonal_cells s) (range_py (board_size s * 2)))
      else if hunt_pattern s = Enum SPIRAL then
        let center = board_size s div 2
        in sort_key (\<lambda>p. \<bar>fst p - center\<bar> + \<bar>snd p - center\<bar>) (possible_targets s)
      else possible_targets s)"

text \<open>\<open>_hunt_mode\<close>: the candidate of highest heat, the first one among equals; a random
  target when there is no candidate.\<close>

definition hunt_mode :: "'a hunt_ai_scheme \<Rightarrow> nat \<Rightarrow> py_error + cell" where
  "hunt_mode s k =
     (case hunt_candidates s of
        [] \<Rightarrow> random_choice (possible_targets s) k
      | c # cs \<Rightarrow> max_by_heat (heat_map s) c cs)"

subsection \<open>Grouping hits\<close>

definition adjacent4 :: "cell \<Rightarrow> cell \<Rightarrow> bool" where
  "adjacent4 other member =
     ((\<bar>fst other - fst member\<bar> = 1 \<and> snd other = snd member) \<or>
      (\<bar>snd other - snd member\<bar> = 1 \<and> fst other = fst member))"

text \<open>One run of the \<open>for other in hits\<close> loop inside \<open>while changed\<close>: every hit not yet
  used and adjacent to a member of the group joins it.\<close>

definition grow_pass :: "cell list \<Rightarrow> cell list \<Rightarrow> cell set \<Rightarrow> cell list \<times> cell set \<times> bool" where
  "grow_pass hs grp used =
     fold (\<lambda>other (g, u, changed).
        if other \<in> u then (g, u, changed)
        else if list_ex (adjacent4 other) g then (g @ [other], insert other u, True)
        else (g, u, changed))
       hs (grp, used, False)"

lemma grow_pass_fold_used:
  "fold (\<lambda>other (g, u, changed).
        if other \<in> u then (g, u, changed)
        else if list_ex (adjacent4 other) g then (g @ [other], insert other u, True)
        else (g, u, changed)) hs (g0, u0, c0) = (g, u, c) \<Longrightarrow>
   u0 \<subseteq> u \<and> u \<subseteq> u0 \<union> set hs \<and> (c \<longrightarrow> c0 \<or> u \<noteq> u0)"
proof (induction hs arbitrary: g0 u0 c0)
  case Nil
  then show ?case by simp
next
  case (Cons h hs)
  show ?case
  proof (cases "h \<in> u0")
    case True
    with Cons.prems Cons.IH[of g0 u0 c0] show ?thesis by auto
  next
    case False
    show ?thesis
    proof (cases "list_ex (adjacent4 h) g0")
      case True
      with False Cons.prems Cons.IH[of "g0 @ [h]" "insert h u0" True]
      show ?thesis by auto
    next
      case nadj: False
      with False Cons.prems Cons.IH[of g0 u0 c0] show ?thesis by auto
    qed
  qed
qed

lemma grow_pass_used:
  "grow_pass hs grp used = (g, u, True) \<Longrightarrow> used \<subset> u \<and> u \<subseteq> used \<union> set hs"
  unfolding grow_pass_def using grow_pass_fold_used[of hs grp used False g u True] by auto

text \<open>The \<open>while changed\<close> loop. It terminates: a pass that changes something uses a hit
  that was not used.\<close>

function grow_group :: "cell list \<Rightarrow> cell list \<Rightarrow> cell set \<Rightarrow> cell list \<times> cell set" where
  "grow_group hs grp used =
     (case grow_pass hs grp used of
        (g, u, changed) \<Rightarrow> if changed then grow_group hs g u else (g, u))"
  by pat_completeness auto
termination
proof (relation "measure (\<lambda>(hs, grp, used). card (set hs - used))", goal_cases)
  case 1
  show ?case by simp
next
  case (2 hs grp used g y u changed)
  then have "grow_pass hs grp used = (g, u, True)" by simp
  then have "used \<subset> u" "u \<subseteq> used \<union> set hs" using grow_pass_used by blast+
  then have "set hs - u \<subset> set hs - used" by blast
  then have "card (set hs - u) < card (set hs - used)"
    by (intro psubset_card_mono) simp_all
  then show ?case by simp
qed

declare grow_group.simps [simp del]

text \<open>\<open>_group_hits\<close>: every hit not yet used starts a group, which is grown and sorted.\<close>

definition group_hits :: "cell list \<Rightarrow> cell list list" where
  "group_hits hs =
     fst (fold (\<lambda>hit (groups, used).
        if hit \<in> used then (groups, used)
        else case grow_group hs [hit] (insert hit used) of
               (g, u) \<Rightarrow> (groups @ [sort g], u))
       hs ([], {}))"

subsection \<open>Target mode\<close>

text \<open>The body of the loop over the groups: for a group of two or more hits in one row or
  one column, the cell before its lowest end if that is a target on the board, else the cell
  after its highest end if that is one.\<close>

definition group_end :: "'a base_ai_scheme \<Rightarrow> cell list \<Rightarrow> cell option" where
  "group_end s grp =
     (case grp of
        [] \<Rightarrow> None
      | g0 # rest \<Rightarrow>
          if length grp \<ge> 2 then
            if list_all (\<lambda>(x, y). y = snd g0) grp then
              let min_x = py_min (fst g0) (map fst rest);
                  max_x = py_max (fst g0) (map fst rest);
                  y = snd g0
              in if min_x > 0 \<and> (min_x - 1, y) \<in> set (possible_targets s) then Some (min_x - 1, y)
                 else if max_x < board_size s - 1 \<and> (max_x + 1, y) \<in> set (possible_targets s)
                 then Some (max_x + 1, y)
                 else None
            else if list_all (\<lambda>(x, y). x = fst g0) grp then
              let min_y = py_min (snd g0) (map snd rest);
                  max_y = py_max (snd g0) (map snd rest);
                  x = fst g0
              in if min_y > 0 \<and> (x, min_y - 1) \<in> set (possible_targets s) then Some (x, min_y - 1)
                 else if max_y < board_size s - 1 \<and> (x, max_y + 1) \<in> set (possible_targets s)
                 then Some (x, max_y + 1)
                 else None
            else None
          else None)"

text \<open>The first result of a loop body that returns from inside the loop.\<close>

fun first_some :: "('a \<Rightarrow> 'b option) \<Rightarrow> 'a list \<Rightarrow> 'b option" where
  "first_some f [] = None"
| "first_some f (x # xs) = (case f x of Some r \<Rightarrow> Some r | None \<Rightarrow> first_some f xs)"

text \<open>The second loop of \<open>_target_mode\<close>: for the first unsunk hit that has a neighbouring
  target, the neighbour of highest heat.\<close>

definition best_adjacent :: "'a base_ai_scheme \<Rightarrow> cell \<Rightarrow> (py_error + cell) option" where
  "best_adjacent s hit =
     (case get_adjacent_positions s (fst hit) (snd hit) of
        [] \<Rightarrow> None
      | a # as \<Rightarrow> Some (max_by_heat (heat_map s) a as))"

definition target_mode_guess :: "'a hunt_ai_scheme \<Rightarrow> cell list \<Rightarrow> nat \<Rightarrow> py_error + cell" where
  "target_mode_guess s unsunk k =
     (case first_some (group_end s) (group_hits unsunk) of
        Some c \<Rightarrow> Inr c
      | None \<Rightarrow>
          (case first_some (best_adjacent s) unsunk of
             Some r \<Rightarrow> r
           | None \<Rightarrow> hunt_mode s k))"

subsection \<open>\<open>ImprovedHuntTargetAI.make_guess\<close>\<close>

text \<open>
  The result is \<open>None\<close> when no target is left. Priority targets are popped until one is
  still a target; the popped ones stay removed. The method returns the guess (or the
  exception) and the engine as it leaves it.
\<close>

definition hunt_make_guess ::
  "'a hunt_ai_scheme \<Rightarrow> nat \<Rightarrow> (py_error + cell option) \<times> 'a hunt_ai_scheme" where
  "hunt_make_guess s k =
     (if possible_targets s = [] then (Inr None, s)
      else
        case dropWhile (\<lambda>t. t \<notin> set (possible_targets s)) (priority_targets s) of
          target # rest \<Rightarrow> (Inr (Some target), s\<lparr>priority_targets := rest\<rparr>)
        | [] \<Rightarrow>
            let s' = s\<lparr>priority_targets := []\<rparr> in
            if unsunk_hits s' \<noteq> []
            then (map_sum id Some (target_mode_guess s' (unsunk_hits s') k), s')
            else (map_sum id Some (hunt_mode s' k), s'))"

text \<open>Two states of the hunt and target engine on a 10 by 10 board, used as examples: after
  hits at \<open>(3, 4)\<close> and \<open>(4, 4)\<close>; and the same after a first miss at \<open>(1, 4)\<close>.\<close>

definition hits_in_row :: hunt_ai where
  "hits_in_row =
     update_after_guess (update_after_guess (ImprovedHuntTargetAI_init 10) 3 4 True False None)
       4 4 True False None"

definition miss_then_hits_in_row :: hunt_ai where
  "miss_then_hits_in_row =
     update_after_guess (update_after_guess
       (update_after_guess (ImprovedHuntTargetAI_init 10) 1 4 False False None)
       3 4 True False None) 4 4 True False None"


section \<open>The adaptive engine: \<open>AdaptiveAI\<close>\<close>

subsection \<open>Python floats\<close>

text \<open>
  A Python float is an IEEE 754 double. A finite double is modelled by the rational number
  it denotes, and every arithmetic operation by the exact operation followed by rounding to
  the nearest double, ties to the even significand (53 bits). The exponent range is not
  bounded here: the weights and ratios below lie between 0 and 1 and stay far above the
  subnormal range, and nothing overflows.
\<close>

fun bitlen :: "nat \<Rightarrow> nat" where
  "bitlen n = (if n = 0 then 0 else Suc (bitlen (n div 2)))"

declare bitlen.simps [simp del]

text \<open>The exponent \<open>e\<close> with \<open>2 ^ e \<le> a < 2 ^ (e + 1)\<close>, for \<open>a > 0\<close>.\<close>

definition ilog2 :: "rat \<Rightarrow> int" where
  "ilog2 a =
     (if 1 \<le> a then int (bitlen (nat \<lfloor>a\<rfloor>)) - 1
      else - int (bitlen (nat (\<lceil>1 / a\<rceil> - 1))))"

definition pow2 :: "int \<Rightarrow> rat" where
  "pow2 e = (if 0 \<le> e then 2 ^ nat e else 1 / 2 ^ nat (- e))"

definition round_even :: "rat \<Rightarrow> int" where
  "round_even m =
     (let f = \<lfloor>m\<rfloor>; r = m - of_int f
      in if r < 1 / 2 then f else if 1 / 2 < r then f + 1 else if even f then f else f + 1)"

definition rd :: "rat \<Rightarrow> rat" where
  "rd q =
     (if q = 0 then 0
      else let u = pow2 (ilog2 \<bar>q\<bar> - 52)
           in sgn q * of_int (round_even (\<bar>q\<bar> / u)) * u)"

definition fadd :: "rat \<Rightarrow> rat \<Rightarrow> rat" where "fadd a b = rd (a + b)"
definition fsub :: "rat \<Rightarrow> rat \<Rightarrow> rat" where "fsub a b = rd (a - b)"
definition fmul :: "rat \<Rightarrow> rat \<Rightarrow> rat" where "fmul a b = rd (a * b)"

text \<open>\<open>n / d\<close> for two Python integers: the correctly rounded quotient, or
  \<open>ZeroDivisionError\<close>.\<close>

definition int_truediv :: "int \<Rightarrow> int \<Rightarrow> py_error + rat" where
  "int_truediv n d = (if d = 0 then Inl ZeroDivisionError else Inr (rd (of_int n / of_int d)))"

subsection \<open>The engine and its learner\<close>

text \<open>The dictionary \<open>pattern_weights\<close> has five fixed keys.\<close>

record pattern_weights =
  edge_preference :: rat
  center_preference :: rat
  cluster_ships :: rat
  spread_ships :: rat
  diagonal_placement :: rat

record adaptive_ai = base_ai +
  opponent_patterns :: "(string \<times> rat) list"
  games_played :: int
  weights :: pattern_weights

definition AdaptiveAI_init :: "int \<Rightarrow> adaptive_ai" where
  "AdaptiveAI_init bs =
     base_ai.extend (BaseAI_init bs)
       (adaptive_ai.fields []
          0
          \<lparr> edge_preference = 1 / 2, center_preference = 1 / 2, cluster_ships = 1 / 2,
            spread_ships = 1 / 2, diagonal_placement = 1 / 2 \<rparr>)"

definition is_edge :: "'a base_ai_scheme \<Rightarrow> int \<Rightarrow> int \<Rightarrow> bool" where
  "is_edge s x y = (x = 0 \<or> x = board_size s - 1 \<or> y = 0 \<or> y = board_size s - 1)"

definition is_corner :: "'a base_ai_scheme \<Rightarrow> int \<Rightarrow> int \<Rightarrow> bool" where
  "is_corner s x y = ((x = 0 \<or> x = board_size s - 1) \<and> (y = 0 \<or> y = board_size s - 1))"

text \<open>\<open>AdaptiveAI._ships_are_close\<close>.\<close>

definition ships_are_close :: "cell list \<Rightarrow> cell list \<Rightarrow> bool" where
  "ships_are_close ship1 ship2 =
     list_ex (\<lambda>(x1, y1). list_ex (\<lambda>(x2, y2). \<bar>x1 - x2\<bar> \<le> 2 \<and> \<bar>y1 - y2\<bar> \<le> 2) ship2) ship1"

text \<open>The learning rate, the literal \<open>0.2\<close>.\<close>

definition alpha :: rat where
  "alpha = rd (1 / 5)"

text \<open>The two counting loops of \<open>learn_from_game\<close>.\<close>

definition count_edge_ships :: "'a base_ai_scheme \<Rightarrow> cell list list \<Rightarrow> int" where
  "count_edge_ships s ships =
     fold (\<lambda>ship n. if list_ex (\<lambda>(x, y). is_edge s x y) ship then n + 1 else n) ships 0"

definition count_clustered_ships :: "cell list list \<Rightarrow> int" where
  "count_clustered_ships ships =
     fold (\<lambda>ship1 n.
        if list_ex (\<lambda>ship2. ship1 \<noteq> ship2 \<and> ships_are_close ship1 ship2) ships
        then n + 1 else n) ships 0"

text \<open>
  \<open>AdaptiveAI.learn_from_game\<close>. Both ratios divide by the number of ships, so an empty
  layout raises \<open>ZeroDivisionError\<close> (after \<open>games_played\<close> was incremented).
\<close>

definition learn_from_game :: "'a adaptive_ai_scheme \<Rightarrow> cell list list \<Rightarrow> py_error + 'a adaptive_ai_scheme" where
  "learn_from_game s enemy_ship_positions =
     (let s1 = s\<lparr>games_played := games_played s + 1\<rparr>;
          edge_ships = count_edge_ships s1 enemy_ship_positions
      in case int_truediv edge_ships (int (length enemy_ship_positions)) of
           Inl e \<Rightarrow> Inl e
         | Inr edge_ratio \<Rightarrow>
             let w1 = (weights s1)\<lparr>edge_preference :=
                        fadd (fmul alpha edge_ratio)
                             (fmul (fsub 1 alpha) (edge_preference (weights s1)))\<rparr>;
                 w2 = w1\<lparr>center_preference := fsub 1 (edge_preference w1)\<rparr>;
                 clustered_ships = count_clustered_ships enemy_ship_positions
             in case int_truediv clustered_ships (int (length enemy_ship_positions)) of
                  Inl e \<Rightarrow> Inl e
                | Inr cluster_ratio \<Rightarrow>
                    let w3 = w2\<lparr>cluster_ships :=
                               fadd (fmul alpha cluster_ratio)
                                    (fmul (fsub 1 alpha) (cluster_ships w2))\<rparr>;
                        w4 = w3\<lparr>spread_ships := fsub 1 (cluster_ships w3)\<rparr>
                    in Inr (s1\<lparr>weights := w4\<rparr>))"

text \<open>The specification's cluster ratio: the fraction of the pairs of ships that are
  within Chebyshev distance 2 of each other.\<close>

definition ship_pairs :: "cell list list \<Rightarrow> (cell list \<times> cell list) list" where
  "ship_pairs ships =
     concat (map (\<lambda>i. map (\<lambda>j. (ships ! i, ships ! j)) [Suc i..<length ships]) [0..<length ships])"

definition close_pair_fraction :: "cell list list \<Rightarrow> rat" where
  "close_pair_fraction ships =
     of_nat (length (filter (\<lambda>(a, b). ships_are_close a b) (ship_pairs ships)))
       / of_nat (length (ship_pairs ships))"


section \<open>The heat map counts accepted placements\<close>

lemma rect_zeros: "0 \<le> n \<Longrightarrow> rect (zeros n) n"
  by (auto simp: rect_def zeros_def)

lemma heat_at_zeros: "heat_at (zeros n) x y = 0"
  by (auto simp: heat_at_def zeros_def)

lemma rect_heat_incr: "rect hm n \<Longrightarrow> rect (heat_incr hm x y) n"
proof (cases "nat y < length hm")
  case True
  assume "rect hm n"
  then show ?thesis using True
    by (auto simp: rect_def heat_incr_def dest!: set_update_subset_insert[THEN subsetD])
next
  case False
  assume "rect hm n"
  moreover have "hm[nat y := v] = hm" for v using False by (simp add: list_update_beyond)
  ultimately show ?thesis by (simp add: heat_incr_def)
qed

lemma heat_at_heat_incr:
  assumes "rect hm n"
  shows "heat_at (heat_incr hm x y) cx cy =
         heat_at hm cx cy + (if (cx, cy) = (x, y) \<and> in_board n (x, y) then 1 else 0)"
proof -
  have len: "int (length hm) = n" and rows: "\<And>i. i < length hm \<Longrightarrow> int (length (hm ! i)) = n"
    using assms by (auto simp: rect_def)
  show ?thesis
  proof (cases "0 \<le> y \<and> 0 \<le> x")
    case False
    then show ?thesis by (auto simp: heat_incr_def in_board_def)
  next
    case True
    show ?thesis
    proof (cases "0 \<le> cy \<and> nat cy < length hm")
      case False
      then show ?thesis using True len
        by (auto simp: heat_incr_def heat_at_def in_board_def)
    next
      case cyin: True
      show ?thesis
      proof (cases "cy = y")
        case False
        then have "nat cy \<noteq> nat y" using True cyin by auto
        then show ?thesis using True cyin False
          by (auto simp: heat_incr_def heat_at_def in_board_def)
      next
        case yy: True
        show ?thesis
        proof (cases "cx = x")
          case False
          then have "0 \<le> cx \<Longrightarrow> nat cx \<noteq> nat x" using True by auto
          then show ?thesis using True cyin yy False
            by (auto simp: heat_incr_def heat_at_def in_board_def)
        next
          case xx: True
          then show ?thesis using True cyin yy len rows[of "nat y"]
            by (auto simp: heat_incr_def heat_at_def in_board_def)
        qed
      qed
    qed
  qed
qed

lemma rect_add_placement: "rect hm n \<Longrightarrow> rect (add_placement ps hm) n"
  unfolding add_placement_def
  by (induction ps arbitrary: hm) (auto simp: rect_heat_incr)

lemma heat_at_add_placement:
  assumes "rect hm n" "in_board n (cx, cy)"
  shows "heat_at (add_placement ps hm) cx cy = heat_at hm cx cy + count_list ps (cx, cy)"
  using assms(1) unfolding add_placement_def
proof (induction ps arbitrary: hm)
  case Nil
  then show ?case by simp
next
  case (Cons p ps)
  obtain px py where p: "p = (px, py)" by (cases p)
  have r: "rect (heat_incr hm px py) n" using Cons.prems by (rule rect_heat_incr)
  show ?case using Cons.IH[OF r] assms(2) heat_at_heat_incr[OF Cons.prems, of px py cx cy]
    by (auto simp: p)
qed


lemma add_placement_append: "add_placement (ps @ qs) hm = add_placement qs (add_placement ps hm)"
  by (simp add: add_placement_def)

lemma add_placement_Nil: "add_placement [] hm = hm"
  by (simp add: add_placement_def)

lemma fold_if_placements:
  "fold (\<lambda>x h. if P x then add_placement (F x) h else h) xs hm =
   add_placement (concat (map (\<lambda>x. if P x then F x else []) xs)) hm"
  by (induction xs arbitrary: hm) (simp_all add: add_placement_append add_placement_Nil)

lemma fold_placements:
  "fold (\<lambda>x h. add_placement (F x) h) xs hm = add_placement (concat (map F xs)) hm"
  by (induction xs arbitrary: hm) (simp_all add: add_placement_append add_placement_Nil)

lemma row_loop_horizontal:
  "fold (\<lambda>i h. heat_incr h (x + i) y) (range_py sz) hm = add_placement (positions_of x y sz True) hm"
  by (simp add: positions_of_def add_placement_def fold_map comp_def)

lemma row_loop_vertical:
  "fold (\<lambda>i h. heat_incr h x (y + i)) (range_py sz) hm = add_placement (positions_of x y sz False) hm"
  by (simp add: positions_of_def add_placement_def fold_map comp_def)

lemma horizontal_pass_cells:
  "horizontal_pass s sz hm =
   add_placement (placed_cells s sz True (range_py (board_size s)) (range_py (board_size s - sz + 1))) hm"
proof -
  have inner: "fold (\<lambda>x h. if can_place_ship s x y sz True
                  then fold (\<lambda>i h. heat_incr h (x + i) y) (range_py sz) h else h) xs h0 =
        add_placement (concat (map (\<lambda>x. if can_place_ship s x y sz True
                  then positions_of x y sz True else []) xs)) h0" for y xs h0
    unfolding row_loop_horizontal by (rule fold_if_placements)
  show ?thesis
    unfolding horizontal_pass_def placed_cells_def inner by (rule fold_placements)
qed

lemma vertical_pass_cells:
  "vertical_pass s sz hm =
   add_placement (placed_cells s sz False (range_py (board_size s - sz + 1)) (range_py (board_size s))) hm"
proof -
  have inner: "fold (\<lambda>x h. if can_place_ship s x y sz False
                  then fold (\<lambda>i h. heat_incr h x (y + i)) (range_py sz) h else h) xs h0 =
        add_placement (concat (map (\<lambda>x. if can_place_ship s x y sz False
                  then positions_of x y sz False else []) xs)) h0" for y xs h0
    unfolding row_loop_vertical by (rule fold_if_placements)
  show ?thesis
    unfolding vertical_pass_def placed_cells_def inner by (rule fold_placements)
qed

lemma compute_heat_map_cells:
  "compute_heat_map s = add_placement (all_placed_cells s) (zeros (board_size s))"
proof -
  have "fold (\<lambda>sz h. vertical_pass s sz (horizontal_pass s sz h)) szs hm =
        add_placement (concat (map (\<lambda>sz.
          placed_cells s sz True (range_py (board_size s)) (range_py (board_size s - sz + 1)) @
          placed_cells s sz False (range_py (board_size s - sz + 1)) (range_py (board_size s))) szs)) hm"
    for szs hm
    by (induction szs arbitrary: hm)
       (simp_all add: add_placement_Nil add_placement_append horizontal_pass_cells vertical_pass_cells)
  then show ?thesis by (simp add: compute_heat_map_def all_placed_cells_def)
qed

lemma heat_at_compute:
  assumes "in_board (board_size s) (cx, cy)"
  shows "heat_at (compute_heat_map s) cx cy = count_list (all_placed_cells s) (cx, cy)"
proof -
  have "0 \<le> board_size s" using assms by (simp add: in_board_def)
  then have "rect (zeros (board_size s)) (board_size s)" by (rule rect_zeros)
  from heat_at_add_placement[OF this assms] show ?thesis
    by (simp add: compute_heat_map_cells heat_at_zeros)
qed

lemma set_range_py: "set (range_py n) = {0..<n}"
  by (auto simp: range_py_def)

lemma distinct_range_py: "distinct (range_py n)"
  by (simp add: range_py_def)

lemma set_positions_of: "set (positions_of x y sz h) = window x y sz h"
  by (simp add: positions_of_def window_def set_range_py)

lemma distinct_positions_of: "distinct (positions_of x y sz h)"
  by (auto simp: positions_of_def distinct_map distinct_range_py inj_on_def)

lemma sorted_hd_Min: "sorted xs \<Longrightarrow> xs \<noteq> [] \<Longrightarrow> hd xs = Min (set xs)"
  for xs :: "int list"
  by (cases xs) (auto intro!: Min_eqI[symmetric])

lemma sorted_last_Max: "sorted xs \<Longrightarrow> xs \<noteq> [] \<Longrightarrow> last xs = Max (set xs)"
  for xs :: "int list"
proof (induction xs)
  case Nil
  then show ?case by simp
next
  case (Cons a xs)
  show ?case
  proof (cases "xs = []")
    case True
    then show ?thesis by simp
  next
    case False
    with Cons have "last xs = Max (set xs)" by simp
    moreover have "a \<le> Max (set xs)" using Cons.prems False
      by (metis last_in_set calculation sorted_simps(2))
    ultimately show ?thesis using False by (simp add: max_def)
  qed
qed


lemma contiguity_check:
  fixes zs :: "int list"
  assumes "distinct zs"
  shows "(length zs > 0 \<and> length zs > 1 \<and> last (sort zs) - hd (sort zs) \<noteq> int (length (sort zs)) - 1)
     \<longleftrightarrow> (set zs \<noteq> {} \<and> Max (set zs) - Min (set zs) \<noteq> int (card (set zs)) - 1)"
proof (cases "zs = []")
  case True
  then show ?thesis by simp
next
  case False
  then have ne: "sort zs \<noteq> []" by (metis length_0_conv length_sort)
  have l: "last (sort zs) = Max (set zs)"
    using sorted_last_Max[OF sorted_sort ne] by simp
  have h: "hd (sort zs) = Min (set zs)"
    using sorted_hd_Min[OF sorted_sort ne] by simp
  have c: "card (set zs) = length zs" using assms by (rule distinct_card)
  show ?thesis
  proof (cases "length zs = 1")
    case True
    then have "card (set zs) = 1" using c by simp
    then obtain a where "set zs = {a}" by (rule card_1_singletonE)
    then show ?thesis using True by simp
  next
    case False
    then have "length zs > 1" using \<open>zs \<noteq> []\<close> by (cases zs) auto
    then show ?thesis using l h c \<open>zs \<noteq> []\<close> by simp
  qed
qed

lemma distinct_line_coords:
  "distinct (map (if h then fst else snd) (filter P (positions_of x y sz h)))"
proof -
  have "distinct (map (if h then fst else snd) (positions_of x y sz h))"
    by (auto simp: positions_of_def distinct_map distinct_range_py inj_on_def comp_def)
  then show ?thesis by (rule distinct_map_filter)
qed

lemma set_line_coords:
  "set (map (if h then fst else snd) (filter (\<lambda>p. p \<in> set (hits s)) (positions_of x y sz h)))
   = window_hits s x y sz h"
  by (auto simp: window_hits_def set_positions_of)

lemma can_place_ship_iff:
  assumes nonneg: "\<forall>c\<in>window x y sz h. 0 \<le> fst c \<and> 0 \<le> snd c"
  shows "can_place_ship s x y sz h \<longleftrightarrow> \<not> window_rejected s x y sz h"
proof -
  let ?ps = "positions_of x y sz h"
  let ?lh = "filter (\<lambda>p. p \<in> set (hits s)) ?ps"
  let ?zs = "map (if h then fst else snd) ?lh"
  have A: "list_ex (\<lambda>(px, py). px \<ge> board_size s \<or> py \<ge> board_size s \<or> (px, py) \<in> set (misses s)) ?ps
      \<longleftrightarrow> (\<exists>c\<in>window x y sz h. \<not> in_board (board_size s) c) \<or>
          (\<exists>c\<in>window x y sz h. c \<in> set (misses s))"
    using nonneg unfolding list_ex_iff set_positions_of in_board_def by fastforce
  have B: "(length ?zs > 0 \<and> length ?zs > 1 \<and> last (sort ?zs) - hd (sort ?zs) \<noteq> int (length (sort ?zs)) - 1)
     \<longleftrightarrow> (window_hits s x y sz h \<noteq> {} \<and>
          Max (window_hits s x y sz h) - Min (window_hits s x y sz h)
            \<noteq> int (card (window_hits s x y sz h)) - 1)"
    using contiguity_check[OF distinct_line_coords, of h "\<lambda>p. p \<in> set (hits s)" x y sz]
    unfolding set_line_coords .
  have C: "can_place_ship s x y sz h \<longleftrightarrow>
     \<not> (list_ex (\<lambda>(px, py). px \<ge> board_size s \<or> py \<ge> board_size s \<or> (px, py) \<in> set (misses s)) ?ps
        \<or> (length ?zs > 0 \<and> length ?zs > 1 \<and> last (sort ?zs) - hd (sort ?zs) \<noteq> int (length (sort ?zs)) - 1))"
    by (cases h) (simp_all add: can_place_ship_def Let_def)
  show ?thesis unfolding C A B window_rejected_def by blast
qed


lemma count_list_concat: "count_list (concat xss) c = (\<Sum>xs\<leftarrow>xss. count_list xs c)"
  by (induction xss) simp_all

lemma count_list_distinct: "distinct xs \<Longrightarrow> count_list xs c = (if c \<in> set xs then 1 else 0)"
  by (induction xs) auto

lemma indicator_double_sum:
  assumes "finite X" "finite Y"
  shows "(\<Sum>y\<in>Y. \<Sum>x\<in>X. if Q x y then 1 else 0) = card {(x, y). x \<in> X \<and> y \<in> Y \<and> Q x y}"
proof -
  have "(\<Sum>y\<in>Y. \<Sum>x\<in>X. if Q x y then 1 else (0::nat))
        = (\<Sum>x\<in>X. \<Sum>y\<in>Y. if Q x y then 1 else 0)"
    by (rule sum.swap)
  also have "\<dots> = (\<Sum>p\<in>X \<times> Y. if (case p of (x, y) \<Rightarrow> Q x y) then 1 else 0)"
    by (simp add: sum.cartesian_product split_def)
  also have "\<dots> = card {p \<in> X \<times> Y. case p of (x, y) \<Rightarrow> Q x y}"
    using assms by (simp add: sum.If_cases Int_def)
  also have "{p \<in> X \<times> Y. case p of (x, y) \<Rightarrow> Q x y} = {(x, y). x \<in> X \<and> y \<in> Y \<and> Q x y}"
    by auto
  finally show ?thesis .
qed

lemma count_placed_cells:
  assumes "distinct xs" "distinct ys"
  shows "count_list (placed_cells s sz h ys xs) c =
         card {(x, y). x \<in> set xs \<and> y \<in> set ys \<and> can_place_ship s x y sz h \<and> c \<in> window x y sz h}"
proof -
  have one: "count_list (if can_place_ship s x y sz h then positions_of x y sz h else []) c
             = (if can_place_ship s x y sz h \<and> c \<in> window x y sz h then 1 else 0)" for x y
    by (simp add: count_list_distinct[OF distinct_positions_of] set_positions_of)
  have "count_list (placed_cells s sz h ys xs) c
        = (\<Sum>y\<leftarrow>ys. \<Sum>x\<leftarrow>xs. if can_place_ship s x y sz h \<and> c \<in> window x y sz h then 1 else 0)"
    by (simp add: placed_cells_def count_list_concat comp_def one)
  also have "\<dots> = (\<Sum>y\<in>set ys. \<Sum>x\<in>set xs. if can_place_ship s x y sz h \<and> c \<in> window x y sz h then 1 else 0)"
    using assms by (simp add: sum_list_distinct_conv_sum_set)
  also have "\<dots> = card {(x, y). x \<in> set xs \<and> y \<in> set ys \<and> can_place_ship s x y sz h \<and> c \<in> window x y sz h}"
    by (rule indicator_double_sum) simp_all
  finally show ?thesis .
qed

lemma accepted_windows_horizontal:
  "accepted_windows s L True c =
   {(x, y). x \<in> set (range_py (board_size s - L + 1)) \<and> y \<in> set (range_py (board_size s)) \<and>
            can_place_ship s x y L True \<and> c \<in> window x y L True}"
proof -
  have "\<not> window_rejected s x y L True \<and> c \<in> window x y L True \<longleftrightarrow>
        x \<in> {0..<board_size s - L + 1} \<and> y \<in> {0..<board_size s} \<and>
        can_place_ship s x y L True \<and> c \<in> window x y L True" for x y
  proof (cases "c \<in> window x y L True")
    case False
    then show ?thesis by simp
  next
    case True
    then have L: "0 < L" by (auto simp: window_def)
    then have first: "(x, y) \<in> window x y L True" and last: "(x + (L - 1), y) \<in> window x y L True"
      by (auto simp: window_def)
    show ?thesis
    proof (cases "0 \<le> x \<and> 0 \<le> y")
      case nn: True
      then have "\<forall>c\<in>window x y L True. 0 \<le> fst c \<and> 0 \<le> snd c" by (auto simp: window_def)
      from can_place_ship_iff[OF this, of s] have iff: "can_place_ship s x y L True \<longleftrightarrow> \<not> window_rejected s x y L True" .
      have "\<not> window_rejected s x y L True \<Longrightarrow> x < board_size s - L + 1 \<and> y < board_size s"
        using last unfolding window_rejected_def in_board_def by fastforce
      then show ?thesis using True nn iff by auto
    next
      case False
      then have "window_rejected s x y L True"
        using first unfolding window_rejected_def in_board_def by fastforce
      then show ?thesis using False by auto
    qed
  qed
  then show ?thesis by (auto simp: accepted_windows_def set_range_py)
qed

lemma accepted_windows_vertical:
  "accepted_windows s L False c =
   {(x, y). x \<in> set (range_py (board_size s)) \<and> y \<in> set (range_py (board_size s - L + 1)) \<and>
            can_place_ship s x y L False \<and> c \<in> window x y L False}"
proof -
  have "\<not> window_rejected s x y L False \<and> c \<in> window x y L False \<longleftrightarrow>
        x \<in> {0..<board_size s} \<and> y \<in> {0..<board_size s - L + 1} \<and>
        can_place_ship s x y L False \<and> c \<in> window x y L False" for x y
  proof (cases "c \<in> window x y L False")
    case False
    then show ?thesis by simp
  next
    case True
    then have L: "0 < L" by (auto simp: window_def)
    then have first: "(x, y) \<in> window x y L False" and last: "(x, y + (L - 1)) \<in> window x y L False"
      by (auto simp: window_def)
    show ?thesis
    proof (cases "0 \<le> x \<and> 0 \<le> y")
      case nn: True
      then have "\<forall>c\<in>window x y L False. 0 \<le> fst c \<and> 0 \<le> snd c" by (auto simp: window_def)
      from can_place_ship_iff[OF this, of s] have iff: "can_place_ship s x y L False \<longleftrightarrow> \<not> window_rejected s x y L False" .
      have "\<not> window_rejected s x y L False \<Longrightarrow> x < board_size s \<and> y < board_size s - L + 1"
        using last unfolding window_rejected_def in_board_def by fastforce
      then show ?thesis using True nn iff by auto
    next
      case False
      then have "window_rejected s x y L False"
        using first unfolding window_rejected_def in_board_def by fastforce
      then show ?thesis using False by auto
    qed
  qed
  then show ?thesis by (auto simp: accepted_windows_def set_range_py)
qed

lemma count_all_placed_cells: "count_list (all_placed_cells s) c = placement_count s c"
  by (simp add: all_placed_cells_def placement_count_def count_list_concat comp_def
      count_placed_cells[OF distinct_range_py distinct_range_py]
      accepted_windows_horizontal accepted_windows_vertical)

lemma heat_at_placement_count:
  "in_board (board_size s) (cx, cy) \<Longrightarrow> heat_at (compute_heat_map s) cx cy = placement_count s (cx, cy)"
  by (simp add: heat_at_compute count_all_placed_cells)

section \<open>Recording a shot: the fields of the new state\<close>

lemma compute_heat_map_cong:
  "board_size s = board_size t \<Longrightarrow> hits s = hits t \<Longrightarrow> misses s = misses t \<Longrightarrow>
   remaining_ship_sizes s = remaining_ship_sizes t \<Longrightarrow> compute_heat_map s = compute_heat_map t"
  by (simp add: compute_heat_map_def horizontal_pass_def vertical_pass_def can_place_ship_def)

lemma update_heat_map_fields [simp]:
  "board_size (update_heat_map s) = board_size s"
  "shots_fired (update_heat_map s) = shots_fired s"
  "hits (update_heat_map s) = hits s"
  "misses (update_heat_map s) = misses s"
  "ships_sunk (update_heat_map s) = ships_sunk s"
  "possible_targets (update_heat_map s) = possible_targets s"
  "remaining_ship_sizes (update_heat_map s) = remaining_ship_sizes s"
  "heat_map (update_heat_map s) = compute_heat_map s"
  by (simp_all add: update_heat_map_def)

lemma update_after_guess_board_size [simp]:
  "board_size (update_after_guess s x y is_hit is_sunk sz) = board_size s"
  by (simp add: update_after_guess_def Let_def split: option.split)

lemma update_after_guess_shots_fired [simp]:
  "shots_fired (update_after_guess s x y is_hit is_sunk sz) = shots_fired s @ [(x, y)]"
  by (simp add: update_after_guess_def Let_def split: option.split)

lemma update_after_guess_hits [simp]:
  "hits (update_after_guess s x y is_hit is_sunk sz) = (if is_hit then hits s @ [(x, y)] else hits s)"
  by (simp add: update_after_guess_def Let_def split: option.split)

lemma update_after_guess_misses [simp]:
  "misses (update_after_guess s x y is_hit is_sunk sz) = (if is_hit then misses s else misses s @ [(x, y)])"
  by (simp add: update_after_guess_def Let_def split: option.split)

lemma update_after_guess_heat_map:
  "heat_map (update_after_guess s x y is_hit is_sunk sz)
   = compute_heat_map (update_after_guess s x y is_hit is_sunk sz)"
  by (auto simp add: update_after_guess_def Let_def  split: option.split intro!: compute_heat_map_cong)

lemma miss_not_placed:
  assumes "c \<in> set (misses s)"
  shows "placement_count s c = 0"
proof -
  have "accepted_windows s L h c = {}" for L h
    using assms by (auto simp: accepted_windows_def window_rejected_def)
  then show ?thesis by (simp add: placement_count_def)
qed

lemma reachable_heat_map:
  "reachable s \<Longrightarrow> heat_map s = zeros (board_size s) \<or> heat_map s = compute_heat_map s"
  by (induction rule: reachable.induct) (simp_all add: BaseAI_init_def update_after_guess_heat_map)

lemma update_after_guess_remaining_no_sink [simp]:
  "remaining_ship_sizes (update_after_guess s x y is_hit False sz) = remaining_ship_sizes s"
  "remaining_ship_sizes (update_after_guess s x y is_hit is_sunk None) = remaining_ship_sizes s"
  "remaining_ship_sizes (update_after_guess s x y False is_sunk sz) = remaining_ship_sizes s"
  by (simp_all add: update_after_guess_def Let_def split: option.split)

lemma finite_accepted_windows: "finite (accepted_windows s L h c)"
proof (cases h)
  case True
  have "accepted_windows s L True c \<subseteq>
        set (range_py (board_size s - L + 1)) \<times> set (range_py (board_size s))"
    unfolding accepted_windows_horizontal by auto
  then show ?thesis using True finite_subset by fastforce
next
  case False
  have "accepted_windows s L False c \<subseteq>
        set (range_py (board_size s)) \<times> set (range_py (board_size s - L + 1))"
    unfolding accepted_windows_vertical by auto
  then show ?thesis using False finite_subset by fastforce
qed

lemma placement_count_pos:
  assumes "L \<in> set (remaining_ship_sizes s)" "(x0, y0) \<in> accepted_windows s L h c"
  shows "0 < placement_count s c"
proof -
  have "0 < card (accepted_windows s L h c)"
    using assms(2) finite_accepted_windows[of s L h c] by (auto simp: card_gt_0_iff)
  then have "0 < card (accepted_windows s L True c) + card (accepted_windows s L False c)"
    by (cases h) simp_all
  moreover have "card (accepted_windows s L True c) + card (accepted_windows s L False c)
      \<le> placement_count s c"
    unfolding placement_count_def using assms(1) by (intro member_le_sum_list) auto
  ultimately show ?thesis by linarith
qed

lemma accepted_windowI:
  assumes "0 \<le> x0" "0 \<le> y0" "can_place_ship s x0 y0 L h" "c \<in> window x0 y0 L h"
  shows "(x0, y0) \<in> accepted_windows s L h c"
proof -
  have "\<forall>c\<in>window x0 y0 L h. 0 \<le> fst c \<and> 0 \<le> snd c"
    using assms(1,2) by (auto simp: window_def)
  from can_place_ship_iff[OF this, of s] assms(3,4) show ?thesis
    by (simp add: accepted_windows_def)
qed

section \<open>The breadth-first reconstruction of a sunk ship\<close>

declare find_ship_loop.simps [simp]

lemma hit_component_subset_hits: "hit_component bs hs start \<subseteq> set hs"
proof
  fix c assume "c \<in> hit_component bs hs start"
  then show "c \<in> set hs" by (induction rule: hit_component.induct) auto
qed

lemma finite_hit_component: "finite (hit_component bs hs start)"
  using hit_component_subset_hits by (rule finite_subset) simp

lemma find_ship_loop_sound:
  assumes "set ship_hits \<subseteq> hit_component bs hs start" "distinct ship_hits"
    "set ship_hits \<subseteq> visited"
    "\<forall>c\<in>set queue. c \<in> set hs \<longrightarrow> c \<in> hit_component bs hs start"
  shows "set (find_ship_loop bs hs sz queue visited ship_hits) \<subseteq> hit_component bs hs start \<and>
         distinct (find_ship_loop bs hs sz queue visited ship_hits)"
  using assms
proof (induction bs hs sz queue visited ship_hits rule: find_ship_loop.induct)
  case (1 bs hs sz visited ship_hits)
  then show ?case by simp
next
  case (2 bs hs sz c queue visited ship_hits)
  show ?case
  proof (cases "int (length ship_hits) < sz")
    case False
    then show ?thesis using "2.prems" by simp
  next
    case lt: True
    show ?thesis
    proof (cases "c \<in> visited")
      case True
      then show ?thesis using lt "2.IH"(1) "2.prems" by simp
    next
      case nv: False
      show ?thesis
      proof (cases "c \<in> set hs")
        case True
        then have cC: "c \<in> hit_component bs hs start" using "2.prems"(4) by simp
        have q: "\<forall>n\<in>set (queue @ filter (\<lambda>n. in_board bs n \<and> n \<notin> insert c visited) (neighbours4 c)).
                  n \<in> set hs \<longrightarrow> n \<in> hit_component bs hs start"
          using "2.prems"(4) cC by (auto intro: hit_component.step)
        have "set (ship_hits @ [c]) \<subseteq> hit_component bs hs start" "distinct (ship_hits @ [c])"
          "set (ship_hits @ [c]) \<subseteq> insert c visited"
          using "2.prems" cC nv by auto
        from "2.IH"(2)[OF lt nv True this q] show ?thesis using lt nv True by simp
      next
        case False
        have "set ship_hits \<subseteq> insert c visited" using "2.prems"(3) by auto
        from "2.IH"(3)[OF lt nv False "2.prems"(1,2) this] "2.prems"(4)
        show ?thesis using lt nv False by simp
      qed
    qed
  qed
qed

lemma find_ship_loop_length_le:
  "int (length ship_hits) \<le> sz \<Longrightarrow> int (length (find_ship_loop bs hs sz queue visited ship_hits)) \<le> sz"
  by (induction bs hs sz queue visited ship_hits rule: find_ship_loop.induct) auto

lemma find_ship_loop_complete:
  assumes "visited \<inter> set hs \<subseteq> set ship_hits"
    "\<forall>c\<in>set ship_hits. \<forall>n\<in>set (neighbours4 c). in_board bs n \<longrightarrow> n \<in> visited \<or> n \<in> set queue"
    "start \<in> visited \<or> start \<in> set queue"
  shows "sz \<le> int (length (find_ship_loop bs hs sz queue visited ship_hits)) \<or>
         hit_component bs hs start \<subseteq> set (find_ship_loop bs hs sz queue visited ship_hits)"
  using assms
proof (induction bs hs sz queue visited ship_hits rule: find_ship_loop.induct)
  case (1 bs hs sz visited ship_hits)
  have "c \<in> set ship_hits" if "c \<in> hit_component bs hs start" for c
    using that
  proof (induction rule: hit_component.induct)
    case start
    then show ?case using "1.prems"(1,3) by auto
  next
    case (step c n)
    then have "n \<in> visited" using "1.prems"(2) by auto
    then show ?case using step.hyps(4) "1.prems"(1) by auto
  qed
  then show ?case by auto
next
  case (2 bs hs sz c queue visited ship_hits)
  show ?case
  proof (cases "int (length ship_hits) < sz")
    case False
    then show ?thesis by simp
  next
    case lt: True
    show ?thesis
    proof (cases "c \<in> visited")
      case True
      have "\<forall>c'\<in>set ship_hits. \<forall>n\<in>set (neighbours4 c'). in_board bs n \<longrightarrow> n \<in> visited \<or> n \<in> set queue"
        using "2.prems"(2) True by auto
      moreover have "start \<in> visited \<or> start \<in> set queue" using "2.prems"(3) True by auto
      ultimately show ?thesis using "2.IH"(1)[OF lt True "2.prems"(1)] lt True by simp
    next
      case nv: False
      show ?thesis
      proof (cases "c \<in> set hs")
        case True
        let ?q = "queue @ filter (\<lambda>n. in_board bs n \<and> n \<notin> insert c visited) (neighbours4 c)"
        have a: "insert c visited \<inter> set hs \<subseteq> set (ship_hits @ [c])"
          using "2.prems"(1) by auto
        have b: "\<forall>c'\<in>set (ship_hits @ [c]). \<forall>n\<in>set (neighbours4 c'). in_board bs n \<longrightarrow>
                   n \<in> insert c visited \<or> n \<in> set ?q"
          using "2.prems"(2) by auto
        have d: "start \<in> insert c visited \<or> start \<in> set ?q" using "2.prems"(3) by auto
        from "2.IH"(2)[OF lt nv True a b d] show ?thesis using lt nv True by simp
      next
        case False
        have a: "insert c visited \<inter> set hs \<subseteq> set ship_hits" using "2.prems"(1) False by auto
        have b: "\<forall>c'\<in>set ship_hits. \<forall>n\<in>set (neighbours4 c'). in_board bs n \<longrightarrow>
                   n \<in> insert c visited \<or> n \<in> set queue"
          using "2.prems"(2) by auto
        have d: "start \<in> insert c visited \<or> start \<in> set queue" using "2.prems"(3) by auto
        from "2.IH"(3)[OF lt nv False a b d] show ?thesis using lt nv False by simp
      qed
    qed
  qed
qed

lemma find_ship_loop_prefix:
  "\<exists>ys. find_ship_loop bs hs sz queue visited ship_hits = ship_hits @ ys"
  by (induction bs hs sz queue visited ship_hits rule: find_ship_loop.induct)
     auto

declare find_ship_loop.simps [simp del]

lemma find_ship_found:
  assumes L: "0 < L" and start: "(x, y) \<in> set (hits s)"
    and enough: "L \<le> int (card (hit_component (board_size s) (hits s) (x, y)))"
  shows "int (length (find_ship_from_last_hit s x y L)) = L \<and>
         distinct (find_ship_from_last_hit s x y L) \<and>
         (x, y) \<in> set (find_ship_from_last_hit s x y L) \<and>
         set (find_ship_from_last_hit s x y L) \<subseteq> hit_component (board_size s) (hits s) (x, y)"
proof -
  let ?C = "hit_component (board_size s) (hits s) (x, y)"
  let ?R = "find_ship_loop (board_size s) (hits s) L [(x, y)] {} []"
  have xyC: "(x, y) \<in> ?C" using start by (rule hit_component.start)
  have snd: "set ?R \<subseteq> ?C \<and> distinct ?R"
    by (rule find_ship_loop_sound) (use xyC in auto)
  have le: "int (length ?R) \<le> L"
    by (rule find_ship_loop_length_le) (use L in simp)
  have "L \<le> int (length ?R) \<or> ?C \<subseteq> set ?R"
    by (rule find_ship_loop_complete) auto
  moreover have "L \<le> int (length ?R)" if "?C \<subseteq> set ?R"
  proof -
    have "card ?C \<le> card (set ?R)" using that by (intro card_mono) auto
    also have "\<dots> \<le> length ?R" by (rule card_length)
    finally show ?thesis using enough by linarith
  qed
  ultimately have len: "int (length ?R) = L" using le by auto
  have "?R = find_ship_loop (board_size s) (hits s) L
               ([] @ filter (\<lambda>n. in_board (board_size s) n \<and> n \<notin> insert (x, y) {}) (neighbours4 (x, y)))
               (insert (x, y) {}) ([] @ [(x, y)])"
    using L start by (simp add: find_ship_loop.simps)
  moreover obtain ys where "find_ship_loop (board_size s) (hits s) L
               ([] @ filter (\<lambda>n. in_board (board_size s) n \<and> n \<notin> insert (x, y) {}) (neighbours4 (x, y)))
               (insert (x, y) {}) ([] @ [(x, y)]) = ([] @ [(x, y)]) @ ys"
    using find_ship_loop_prefix by blast
  ultimately have "(x, y) \<in> set ?R" by simp
  then show ?thesis using snd len by (simp add: find_ship_from_last_hit_def)
qed

lemma find_ship_none:
  assumes "int (card (hit_component (board_size s) (hits s) (x, y))) < L"
  shows "find_ship_from_last_hit s x y L = []"
proof -
  let ?C = "hit_component (board_size s) (hits s) (x, y)"
  let ?R = "find_ship_loop (board_size s) (hits s) L [(x, y)] {} []"
  have snd: "set ?R \<subseteq> ?C \<and> distinct ?R"
    by (rule find_ship_loop_sound) (auto intro: hit_component.start)
  then have "length ?R = card (set ?R)" by (simp add: distinct_card)
  also have "\<dots> \<le> card ?C" using snd by (intro card_mono finite_hit_component) simp
  finally have "int (length ?R) \<noteq> L" using assms by linarith
  then show ?thesis by (simp add: find_ship_from_last_hit_def)
qed

lemma find_ship_from_last_hit_cong:
  "board_size s = board_size t \<Longrightarrow> hits s = hits t \<Longrightarrow>
   find_ship_from_last_hit s x y L = find_ship_from_last_hit t x y L"
  by (simp add: find_ship_from_last_hit_def)

subsection \<open>Purging the neighbourhood of a ship\<close>

lemma purge_one_set:
  "distinct t \<Longrightarrow> set (purge_one bs n t) = set t - (if in_board bs n then {n} else {}) \<and>
                    distinct (purge_one bs n t)"
  by (auto simp: purge_one_def)

lemma fold_purge_set:
  "distinct t \<Longrightarrow> set (fold (\<lambda>n t. purge_one bs n t) ns t) = set t - {n \<in> set ns. in_board bs n} \<and>
                    distinct (fold (\<lambda>n t. purge_one bs n t) ns t)"
proof (induction ns arbitrary: t)
  case Nil
  then show ?case by simp
next
  case (Cons n ns)
  from purge_one_set[OF Cons.prems, of bs n]
  have s: "set (purge_one bs n t) = set t - (if in_board bs n then {n} else {})"
    and d: "distinct (purge_one bs n t)" by simp_all
  from Cons.IH[OF d] show ?case unfolding s by auto
qed

lemma clear_adjacent_targets_fold:
  "clear_adjacent_targets bs ship t = fold (\<lambda>n t. purge_one bs n t) (concat (map around ship)) t"
proof -
  have row: "fold (\<lambda>dy t. if in_board bs (x + dx, y + dy) \<and> (x + dx, y + dy) \<in> set t
                        then remove1 (x + dx, y + dy) t else t) dys t0
             = fold (purge_one bs) (map (\<lambda>dy. (x + dx, y + dy)) dys) t0" for x y dx dys t0
    by (induction dys arbitrary: t0) (simp_all add: purge_one_def)
  have cell: "fold (\<lambda>dx t. fold (purge_one bs) (map (\<lambda>dy. (x + dx, y + dy)) dys) t) dxs t0
              = fold (purge_one bs) (concat (map (\<lambda>dx. map (\<lambda>dy. (x + dx, y + dy)) dys) dxs)) t0"
    for x y dxs dys t0
    by (induction dxs arbitrary: t0) simp_all
  have g: "fold (\<lambda>c t. fold (purge_one bs) (G c) t) cs t0
           = fold (purge_one bs) (concat (map G cs)) t0" for G :: "cell \<Rightarrow> cell list" and cs t0
    by (induction cs arbitrary: t0) simp_all
  have f: "(\<lambda>(x, y) t. fold (purge_one bs)
              (concat (map (\<lambda>dx. map (\<lambda>dy. (x + dx, y + dy)) [-1, 0, 1]) [-1, 0, 1])) t)
           = (\<lambda>c t. fold (purge_one bs) (around c) t)"
    by (rule ext) (simp add: split_def around_def)
  show ?thesis
    unfolding clear_adjacent_targets_def row cell f by (rule g)
qed

lemma set_around: "set (around c) = {n. chebyshev_near c n}"
proof -
  have d: "set [-1, 0, 1 :: int] = {d. \<bar>d\<bar> \<le> 1}" by auto
  have "set (around c) = (\<Union>dx\<in>set [-1, 0, 1]. (\<lambda>dy. (fst c + dx, snd c + dy)) ` set [-1, 0, 1])"
    by (simp only: around_def set_concat set_map image_image)
  also have "\<dots> = (\<Union>dx\<in>{d. \<bar>d\<bar> \<le> 1}. (\<lambda>dy. (fst c + dx, snd c + dy)) ` {d. \<bar>d\<bar> \<le> 1})"
    unfolding d ..
  also have "\<dots> = {n. chebyshev_near c n}"
  proof (rule set_eqI)
    fix n :: cell
    obtain nx ny where n: "n = (nx, ny)" by (cases n)
    obtain cx cy where c: "c = (cx, cy)" by (cases c)
    have "n \<in> (\<Union>dx\<in>{d. \<bar>d\<bar> \<le> 1}. (\<lambda>dy. (fst c + dx, snd c + dy)) ` {d. \<bar>d\<bar> \<le> 1})
          \<longleftrightarrow> (\<exists>dx dy. \<bar>dx\<bar> \<le> 1 \<and> \<bar>dy\<bar> \<le> 1 \<and> nx = cx + dx \<and> ny = cy + dy)"
      unfolding n c by auto
    also have "\<dots> \<longleftrightarrow> \<bar>nx - cx\<bar> \<le> 1 \<and> \<bar>ny - cy\<bar> \<le> 1"
    proof
      assume "\<exists>dx dy. \<bar>dx\<bar> \<le> 1 \<and> \<bar>dy\<bar> \<le> 1 \<and> nx = cx + dx \<and> ny = cy + dy"
      then show "\<bar>nx - cx\<bar> \<le> 1 \<and> \<bar>ny - cy\<bar> \<le> 1" by auto
    next
      assume "\<bar>nx - cx\<bar> \<le> 1 \<and> \<bar>ny - cy\<bar> \<le> 1"
      then have "\<bar>nx - cx\<bar> \<le> 1 \<and> \<bar>ny - cy\<bar> \<le> 1 \<and> nx = cx + (nx - cx) \<and> ny = cy + (ny - cy)"
        by simp
      then show "\<exists>dx dy. \<bar>dx\<bar> \<le> 1 \<and> \<bar>dy\<bar> \<le> 1 \<and> nx = cx + dx \<and> ny = cy + dy" by blast
    qed
    finally show "n \<in> (\<Union>dx\<in>{d. \<bar>d\<bar> \<le> 1}. (\<lambda>dy. (fst c + dx, snd c + dy)) ` {d. \<bar>d\<bar> \<le> 1})
          \<longleftrightarrow> n \<in> {n. chebyshev_near c n}"
      by (simp add: chebyshev_near_def n c)
  qed
  finally show ?thesis .
qed

lemma clear_adjacent_targets_set:
  assumes "distinct t"
  shows "set (clear_adjacent_targets bs ship t) =
           set t - {n. in_board bs n \<and> (\<exists>c\<in>set ship. chebyshev_near c n)}"
    and "distinct (clear_adjacent_targets bs ship t)"
  using fold_purge_set[OF assms, of bs "concat (map around ship)"]
  unfolding clear_adjacent_targets_fold by (auto simp: set_around)

section \<open>Recording a shot: sinkings, targets and the invariant of the targets\<close>

lemma BaseAI_init_fields [simp]:
  "board_size (BaseAI_init bs) = bs"
  "shots_fired (BaseAI_init bs) = []"
  "hits (BaseAI_init bs) = []"
  "misses (BaseAI_init bs) = []"
  "ships_sunk (BaseAI_init bs) = []"
  "remaining_ship_sizes (BaseAI_init bs) = [5, 4, 3, 3, 2]"
  "heat_map (BaseAI_init bs) = zeros bs"
  by (simp_all add: BaseAI_init_def)

lemma clear_adjacent_targets_Nil [simp]: "clear_adjacent_targets bs [] t = t"
  by (simp add: clear_adjacent_targets_def)

lemma update_after_guess_ships_sunk:
  "ships_sunk (update_after_guess s x y is_hit is_sunk z) =
     (if sunk_ship_of s x y is_hit is_sunk z \<noteq> []
      then ships_sunk s @ [\<lparr>size_ship = the z, hits_ship = sunk_ship_of s x y is_hit is_sunk z,
                            orientation = None, sunk = True\<rparr>]
      else ships_sunk s)"
  by (simp add: update_after_guess_def sunk_ship_of_def Let_def split: option.split)

lemma update_after_guess_remaining:
  "remaining_ship_sizes (update_after_guess s x y is_hit is_sunk z) =
     (if sunk_ship_of s x y is_hit is_sunk z \<noteq> [] \<and> the z \<in> set (remaining_ship_sizes s)
      then remove1 (the z) (remaining_ship_sizes s)
      else remaining_ship_sizes s)"
  by (simp add: update_after_guess_def sunk_ship_of_def Let_def split: option.split)

lemma update_after_guess_targets:
  "possible_targets (update_after_guess s x y is_hit is_sunk z) =
     remove_fired (x, y)
       (clear_adjacent_targets (board_size s) (sunk_ship_of s x y is_hit is_sunk z) (possible_targets s))"
  by (simp add: update_after_guess_def sunk_ship_of_def Let_def remove_fired_def split: option.split)

lemma remove_fired_set:
  "distinct t \<Longrightarrow> set (remove_fired n t) = set t - {n} \<and> distinct (remove_fired n t)"
  by (auto simp: remove_fired_def)

lemma update_after_guess_targets_set:
  assumes "distinct (possible_targets s)"
  shows "set (possible_targets (update_after_guess s x y is_hit is_sunk z)) =
           set (possible_targets s) -
           {n. in_board (board_size s) n \<and>
               (\<exists>c\<in>set (sunk_ship_of s x y is_hit is_sunk z). chebyshev_near c n)} - {(x, y)}"
    and "distinct (possible_targets (update_after_guess s x y is_hit is_sunk z))"
proof -
  let ?t = "clear_adjacent_targets (board_size s) (sunk_ship_of s x y is_hit is_sunk z) (possible_targets s)"
  have d: "distinct ?t" using assms by (rule clear_adjacent_targets_set(2))
  have s: "set ?t = set (possible_targets s) -
           {n. in_board (board_size s) n \<and>
               (\<exists>c\<in>set (sunk_ship_of s x y is_hit is_sunk z). chebyshev_near c n)}"
    using assms by (rule clear_adjacent_targets_set(1))
  show "set (possible_targets (update_after_guess s x y is_hit is_sunk z)) =
           set (possible_targets s) -
           {n. in_board (board_size s) n \<and>
               (\<exists>c\<in>set (sunk_ship_of s x y is_hit is_sunk z). chebyshev_near c n)} - {(x, y)}"
    unfolding update_after_guess_targets using remove_fired_set[OF d, of "(x, y)"] s by simp
  show "distinct (possible_targets (update_after_guess s x y is_hit is_sunk z))"
    unfolding update_after_guess_targets using remove_fired_set[OF d, of "(x, y)"] by simp
qed

lemma targets_ok_init: "targets_ok (BaseAI_init bs)"
proof -
  have "possible_targets (BaseAI_init bs) = List.product (range_py bs) (range_py bs)"
    by (simp add: BaseAI_init_def product_concat_map)
  then show ?thesis
    by (auto simp: targets_ok_def list_all_iff distinct_product distinct_range_py set_range_py
        in_board_def BaseAI_init_def)
qed

lemma targets_ok_update:
  assumes "targets_ok s"
  shows "targets_ok (update_after_guess s x y is_hit is_sunk z)"
proof -
  have d: "distinct (possible_targets s)" using assms by (simp add: targets_ok_def)
  show ?thesis
    using assms update_after_guess_targets_set[OF d, of x y is_hit is_sunk z]
    by (auto simp: targets_ok_def list_all_iff)
qed

lemma reachable_targets_ok: "reachable s \<Longrightarrow> targets_ok s"
  by (induction rule: reachable.induct) (simp_all add: targets_ok_init targets_ok_update)

lemma sunk_ship_of_no_sink [simp]:
  "sunk_ship_of s x y is_hit False z = []"
  "sunk_ship_of s x y is_hit is_sunk None = []"
  "sunk_ship_of s x y False is_sunk z = []"
  by (simp_all add: sunk_ship_of_def split: option.split)

lemma sunk_ship_of_sink:
  "L \<noteq> 0 \<Longrightarrow> sunk_ship_of s x y True True (Some L) =
     find_ship_from_last_hit
       (s\<lparr>shots_fired := shots_fired s @ [(x, y)], hits := hits s @ [(x, y)],
          last_shot_result := Some ''hit''\<rparr>) x y L"
  by (simp add: sunk_ship_of_def)

lemma update_after_guess_no_ship:
  assumes "sunk_ship_of s x y True True (Some L) = []"
  shows "update_after_guess s x y True True (Some L) = update_after_guess s x y True False None"
  using assms by (simp add: update_after_guess_def sunk_ship_of_def Let_def split: if_splits)

lemma card_hit_component_le: "card (hit_component bs hs start) \<le> length hs"
proof -
  have "card (hit_component bs hs start) \<le> card (set hs)"
    by (intro card_mono hit_component_subset_hits) simp
  also have "\<dots> \<le> length hs" by (rule card_length)
  finally show ?thesis .
qed

lemma sunk_ship_of_found:
  assumes L: "0 < L"
    and enough: "L \<le> int (card (hit_component (board_size s) (hits s @ [(x, y)]) (x, y)))"
  shows "int (length (sunk_ship_of s x y True True (Some L))) = L"
    "distinct (sunk_ship_of s x y True True (Some L))"
    "(x, y) \<in> set (sunk_ship_of s x y True True (Some L))"
    "set (sunk_ship_of s x y True True (Some L))
       \<subseteq> hit_component (board_size s) (hits s @ [(x, y)]) (x, y)"
proof -
  let ?sh = "s\<lparr>shots_fired := shots_fired s @ [(x, y)], hits := hits s @ [(x, y)],
               last_shot_result := Some ''hit''\<rparr>"
  let ?ship = "sunk_ship_of s x y True True (Some L)"
  have eq: "?ship = find_ship_from_last_hit ?sh x y L"
    using L by (simp add: sunk_ship_of_sink)
  have "(x, y) \<in> set (hits ?sh)" by simp
  moreover have "L \<le> int (card (hit_component (board_size ?sh) (hits ?sh) (x, y)))"
    using enough by simp
  ultimately have found:
    "int (length (find_ship_from_last_hit ?sh x y L)) = L \<and>
     distinct (find_ship_from_last_hit ?sh x y L) \<and>
     (x, y) \<in> set (find_ship_from_last_hit ?sh x y L) \<and>
     set (find_ship_from_last_hit ?sh x y L) \<subseteq> hit_component (board_size ?sh) (hits ?sh) (x, y)"
    by (rule find_ship_found[OF L])
  then show "int (length ?ship) = L" "distinct ?ship" "(x, y) \<in> set ?ship"
    "set ?ship \<subseteq> hit_component (board_size s) (hits s @ [(x, y)]) (x, y)"
    unfolding eq by simp_all
qed

lemma two_connected_hits:
  assumes "a \<in> set hs" "b \<in> set hs" "b \<in> set (neighbours4 a)" "in_board bs b" "a \<noteq> b"
  shows "2 \<le> int (card (hit_component bs hs a))"
proof -
  have "a \<in> hit_component bs hs a" using assms(1) by (rule hit_component.start)
  moreover from this have "b \<in> hit_component bs hs a"
    using assms(3,4,2) by (rule hit_component.step)
  ultimately have "{a, b} \<subseteq> hit_component bs hs a" by simp
  then have "card {a, b} \<le> card (hit_component bs hs a)"
    by (intro card_mono finite_hit_component)
  then show ?thesis using assms(5) by simp
qed

section \<open>Hunt mode and target mode\<close>

lemma max_by_key_fold:
  "fold (\<lambda>c best. if f c > f best then c else best) xs x \<in> set (x # xs) \<and>
   (\<forall>c\<in>set (x # xs). f c \<le> f (fold (\<lambda>c best. if f c > f best then c else best) xs x))"
  for f :: "'a \<Rightarrow> 'k::linorder"
proof (induction xs arbitrary: x)
  case Nil
  then show ?case by simp
next
  case (Cons a xs)
  let ?b = "if f a > f x then a else x"
  have IH: "fold (\<lambda>c best. if f c > f best then c else best) xs ?b \<in> set (?b # xs) \<and>
   (\<forall>c\<in>set (?b # xs). f c \<le> f (fold (\<lambda>c best. if f c > f best then c else best) xs ?b))"
    by (rule Cons.IH)
  have "f x \<le> f ?b" "f a \<le> f ?b" by auto
  with IH show ?case
    by (auto simp del: fold_simps simp add: fold_simps(2) intro: order_trans)
qed

lemma max_by_key_mem: "max_by_key f x xs \<in> set (x # xs)"
  unfolding max_by_key_def using max_by_key_fold[of f xs x] by blast

lemma max_by_key_ge: "c \<in> set (x # xs) \<Longrightarrow> f c \<le> f (max_by_key f x xs)"
  unfolding max_by_key_def using max_by_key_fold[of f xs x] by blast

lemma random_choice_mem: "xs \<noteq> [] \<Longrightarrow> \<exists>c. random_choice xs k = Inr c \<and> c \<in> set xs"
  by (simp add: random_choice_def)

lemma first_some_SomeD: "first_some f xs = Some r \<Longrightarrow> \<exists>x\<in>set xs. f x = Some r"
  by (induction xs) (auto split: option.splits)

lemma first_some_None_iff: "first_some f xs = None \<longleftrightarrow> (\<forall>x\<in>set xs. f x = None)"
  by (induction xs) (auto split: option.splits)

lemma first_some_first:
  "(\<forall>x\<in>set xs1. f x = None) \<Longrightarrow> f x = Some r \<Longrightarrow> first_some f (xs1 @ x # xs2) = Some r"
  by (induction xs1) auto

lemma hunt_candidates_subset: "set (hunt_candidates s) \<subseteq> set (possible_targets s)"
proof -
  have "set (first_nonempty (map (diagonal_cells s) ds)) \<subseteq> set (possible_targets s)" for ds
    by (induction ds) (auto simp: diagonal_cells_def)
  then show ?thesis by (auto simp: hunt_candidates_def Let_def)
qed

lemma checkerboard_candidates:
  assumes "hunt_pattern s = Enum CHECKERBOARD"
  shows "set (hunt_candidates s) =
     (if \<exists>c\<in>set (possible_targets s). (fst c + snd c) mod 2 = 0
      then {c \<in> set (possible_targets s). (fst c + snd c) mod 2 = 0}
      else set (possible_targets s))"
  using assms by (auto simp: hunt_candidates_def Let_def filter_empty_conv)

lemma unsunk_hits_no_hits: "hits s = [] \<Longrightarrow> unsunk_hits s = []"
  by (simp add: unsunk_hits_def)

lemma unsunk_hits_priority [simp]: "unsunk_hits (s\<lparr>priority_targets := p\<rparr>) = unsunk_hits s"
  by (simp add: unsunk_hits_def)

lemma diagonal_cells_priority [simp]: "diagonal_cells (s\<lparr>priority_targets := p\<rparr>) = diagonal_cells s"
  by (rule ext) (simp add: diagonal_cells_def)

lemma hunt_candidates_priority [simp]:
  "hunt_candidates (s\<lparr>priority_targets := p\<rparr>) = hunt_candidates s"
  by (simp add: hunt_candidates_def Let_def)

lemma ImprovedHuntTargetAI_init_fields [simp]:
  "board_size (ImprovedHuntTargetAI_init bs) = bs"
  "shots_fired (ImprovedHuntTargetAI_init bs) = []"
  "hits (ImprovedHuntTargetAI_init bs) = []"
  "misses (ImprovedHuntTargetAI_init bs) = []"
  "ships_sunk (ImprovedHuntTargetAI_init bs) = []"
  "remaining_ship_sizes (ImprovedHuntTargetAI_init bs) = [5, 4, 3, 3, 2]"
  "possible_targets (ImprovedHuntTargetAI_init bs) = possible_targets (BaseAI_init bs)"
  "heat_map (ImprovedHuntTargetAI_init bs) = zeros bs"
  "hunt_pattern (ImprovedHuntTargetAI_init bs) = Enum CHECKERBOARD"
  "priority_targets (ImprovedHuntTargetAI_init bs) = []"
  by (simp_all add: ImprovedHuntTargetAI_init_def BaseAI_init_def base_ai.defs hunt_ai.defs)

lemma update_after_guess_more [simp]:
  "base_ai.more (update_after_guess s x y is_hit is_sunk z) = base_ai.more s"
  by (simp add: update_after_guess_def update_heat_map_def Let_def split: option.split)

lemma update_after_guess_hunt_fields [simp]:
  "hunt_pattern (update_after_guess s x y is_hit is_sunk z) = hunt_pattern s"
  "priority_targets (update_after_guess s x y is_hit is_sunk z) = priority_targets s"
  by (simp_all add: update_after_guess_def update_heat_map_def Let_def split: option.split)

lemma set_init_targets: "set (possible_targets (BaseAI_init bs)) = {0..<bs} \<times> {0..<bs}"
proof -
  have "possible_targets (BaseAI_init bs) = List.product (range_py bs) (range_py bs)"
    by (simp add: BaseAI_init_def product_concat_map)
  then show ?thesis by (simp add: set_range_py)
qed

lemma distinct_init_targets: "distinct (possible_targets (BaseAI_init bs))"
  using targets_ok_init[of bs] by (simp add: targets_ok_def)

lemma heat_lookup_in_board:
  assumes "rect hm n" "in_board n p"
  shows "heat_lookup hm p = Some (heat_at hm (fst p) (snd p))"
proof -
  have y: "0 \<le> snd p" "snd p < int (length hm)" and x: "0 \<le> fst p" "fst p < n"
    using assms by (simp_all add: rect_def in_board_def)
  then have r: "nat (snd p) < length hm" by simp
  then have "int (length (hm ! nat (snd p))) = n" using assms(1) by (simp add: rect_def)
  then have c: "nat (fst p) < length (hm ! nat (snd p))" "fst p < int (length (hm ! nat (snd p)))"
    using x by simp_all
  show ?thesis using x y r c by (simp add: heat_lookup_def py_index_def heat_at_def)
qed

lemma max_by_heat_on_board:
  assumes "rect hm n" "list_all (in_board n) (x # xs)"
  shows "\<exists>c v. max_by_heat hm x xs = Inr c \<and> c \<in> set (x # xs) \<and> heat_lookup hm c = Some v \<and>
               (\<forall>c'\<in>set (x # xs). \<exists>v'. heat_lookup hm c' = Some v' \<and> v' \<le> v)"
proof -
  have L: "heat_lookup hm p = Some (heat_at hm (fst p) (snd p))" if "p \<in> set (x # xs)" for p
    using assms that by (intro heat_lookup_in_board[of hm n]) (auto simp: list_all_iff)
  then have all: "list_all (\<lambda>p. heat_lookup hm p \<noteq> None) (x # xs)"
    unfolding list_all_iff by auto
  let ?f = "\<lambda>p. the (heat_lookup hm p)"
  let ?m = "max_by_key ?f x xs"
  have m: "?m \<in> set (x # xs)" by (rule max_by_key_mem)
  have eq: "max_by_heat hm x xs = Inr ?m" using all by (simp add: max_by_heat_def)
  have ge: "?f c' \<le> ?f ?m" if "c' \<in> set (x # xs)" for c'
    using that by (rule max_by_key_ge)
  show ?thesis
  proof (intro exI conjI ballI)
    show "max_by_heat hm x xs = Inr ?m" by (rule eq)
    show "?m \<in> set (x # xs)" by (rule m)
    show "heat_lookup hm ?m = Some (?f ?m)" using L[OF m] by simp
    fix c' assume c': "c' \<in> set (x # xs)"
    show "heat_lookup hm c' = Some (?f c')" using L[OF c'] by simp
    show "?f c' \<le> ?f ?m" using c' by (rule ge)
  qed
qed

lemma hunt_mode_on_board:
  assumes "possible_targets s \<noteq> []"
    and "list_all (in_board (board_size s)) (possible_targets s)"
    and "rect (heat_map s) (board_size s)"
  shows "\<exists>c. hunt_mode s k = Inr c \<and> c \<in> set (possible_targets s) \<and>
             (hunt_candidates s \<noteq> [] \<longrightarrow>
                c \<in> set (hunt_candidates s) \<and>
                (\<exists>v. heat_lookup (heat_map s) c = Some v \<and>
                     (\<forall>c'\<in>set (hunt_candidates s). \<exists>v'. heat_lookup (heat_map s) c' = Some v' \<and> v' \<le> v)))"
proof (cases "hunt_candidates s")
  case Nil
  then show ?thesis using random_choice_mem[OF assms(1), of k] by (simp add: hunt_mode_def)
next
  case (Cons c cs)
  have "list_all (in_board (board_size s)) (c # cs)"
    using assms(2) hunt_candidates_subset[of s] unfolding Cons[symmetric] list_all_iff by blast
  from max_by_heat_on_board[OF assms(3) this] obtain m v where
    m: "max_by_heat (heat_map s) c cs = Inr m" "m \<in> set (c # cs)" "heat_lookup (heat_map s) m = Some v"
       "\<forall>c'\<in>set (c # cs). \<exists>v'. heat_lookup (heat_map s) c' = Some v' \<and> v' \<le> v"
    by (elim exE conjE)
  have h: "hunt_mode s k = Inr m" using m(1) by (simp add: hunt_mode_def Cons)
  have mt: "m \<in> set (possible_targets s)"
    using m(2) hunt_candidates_subset[of s] unfolding Cons[symmetric] by blast
  show ?thesis
  proof (intro exI[of _ m] conjI impI)
    show "hunt_mode s k = Inr m" by (rule h)
    show "m \<in> set (possible_targets s)" by (rule mt)
    show "m \<in> set (hunt_candidates s)" using m(2) unfolding Cons .
    show "\<exists>v. heat_lookup (heat_map s) m = Some v \<and>
           (\<forall>c'\<in>set (hunt_candidates s). \<exists>v'. heat_lookup (heat_map s) c' = Some v' \<and> v' \<le> v)"
      using m(3,4) unfolding Cons by blast
  qed
qed

lemma checkerboard_candidates_list:
  assumes "hunt_pattern s = Enum CHECKERBOARD"
  shows "hunt_candidates s =
     (if list_ex (\<lambda>(x, y). (x + y) mod 2 = 0) (possible_targets s)
      then filter (\<lambda>(x, y). (x + y) mod 2 = 0) (possible_targets s)
      else possible_targets s)"
  using assms by (auto simp: hunt_candidates_def Let_def filter_empty_conv list_ex_iff)

lemma hunt_mode_priority [simp]: "hunt_mode (s\<lparr>priority_targets := p\<rparr>) k = hunt_mode s k"
  by (simp add: hunt_mode_def split: list.split)

lemma rect_compute_heat_map: "0 \<le> board_size s \<Longrightarrow> rect (compute_heat_map s) (board_size s)"
  unfolding compute_heat_map_cells by (intro rect_add_placement rect_zeros)

lemma rect_update_after_guess:
  "0 \<le> board_size s \<Longrightarrow> rect (heat_map (update_after_guess s x y is_hit is_sunk z)) (board_size s)"
  using rect_compute_heat_map[of "update_after_guess s x y is_hit is_sunk z"]
  by (simp add: update_after_guess_heat_map)

lemma targets_ok_hunt_init: "targets_ok (ImprovedHuntTargetAI_init bs)"
  using targets_ok_init[of bs] by (simp add: targets_ok_def)

lemma fallback_example:
  "possible_targets (update_after_guess (update_after_guess (ImprovedHuntTargetAI_init 2)
       0 0 False False None) 1 1 False False None) = [(0, 1), (1, 0)] \<and>
   fst (hunt_make_guess (update_after_guess (update_after_guess (ImprovedHuntTargetAI_init 2)
       0 0 False False None) 1 1 False False None) 0) = Inr (Some (0, 1))"
  by code_simp

lemma py_min_Min: "py_min x xs = Min (set (x # xs))"
proof -
  have "fold (\<lambda>c best. if c < best then c else best) xs x = Min (set (x # xs))" for x :: int
  proof (induction xs arbitrary: x)
    case Nil
    show ?case by simp
  next
    case (Cons a xs)
    have "(if a < x then a else x) = min a x" by (simp add: min_def)
    then have "fold (\<lambda>c best. if c < best then c else best) (a # xs) x
               = Min (set (min a x # xs))" using Cons.IH[of "min a x"] by simp
    also have "\<dots> = Min (set (x # a # xs))"
      by (cases "xs = []") (simp_all add: min.commute min.assoc)
    finally show ?case .
  qed
  then show ?thesis by (simp add: py_min_def)
qed

lemma py_max_Max: "py_max x xs = Max (set (x # xs))"
proof -
  have "fold (\<lambda>c best. if c > best then c else best) xs x = Max (set (x # xs))" for x :: int
  proof (induction xs arbitrary: x)
    case Nil
    show ?case by simp
  next
    case (Cons a xs)
    have "(if a > x then a else x) = max a x" by (simp add: max_def)
    then have "fold (\<lambda>c best. if c > best then c else best) (a # xs) x
               = Max (set (max a x # xs))" using Cons.IH[of "max a x"] by simp
    also have "\<dots> = Max (set (x # a # xs))"
      by (cases "xs = []") (simp_all add: max.commute max.assoc)
    finally show ?case .
  qed
  then show ?thesis by (simp add: py_max_def)
qed

lemma max_by_key_snoc:
  "max_by_key f x (xs @ [a]) = (if f a > f (max_by_key f x xs) then a else max_by_key f x xs)"
  by (simp add: max_by_key_def)

lemma max_by_key_first:
  "\<exists>pre post. x # xs = pre @ max_by_key f x xs # post \<and>
       (\<forall>p\<in>set pre. f p < f (max_by_key f x xs)) \<and>
       (\<forall>p\<in>set post. f p \<le> f (max_by_key f x xs))"
proof (induction xs rule: rev_induct)
  case Nil
  have "[x] = [] @ max_by_key f x [] # []" by (simp add: max_by_key_def)
  then show ?case by fastforce
next
  case (snoc a xs)
  let ?m = "max_by_key f x xs"
  from snoc obtain pre post where pp: "x # xs = pre @ ?m # post"
    "\<forall>p\<in>set pre. f p < f ?m" "\<forall>p\<in>set post. f p \<le> f ?m" by blast
  show ?case
  proof (cases "f a > f ?m")
    case True
    then have m: "max_by_key f x (xs @ [a]) = a" by (simp add: max_by_key_snoc)
    have "\<forall>p\<in>set (x # xs). f p < f a"
      using pp True unfolding pp(1) by (auto intro: le_less_trans)
    then have "x # xs @ [a] = (x # xs) @ a # [] \<and> (\<forall>p\<in>set (x # xs). f p < f a) \<and>
               (\<forall>p\<in>set []. f p \<le> f a)" by simp
    then show ?thesis unfolding m by blast
  next
    case False
    then have m: "max_by_key f x (xs @ [a]) = ?m" by (simp add: max_by_key_snoc)
    have "x # xs @ [a] = pre @ ?m # (post @ [a]) \<and> (\<forall>p\<in>set pre. f p < f ?m) \<and>
          (\<forall>p\<in>set (post @ [a]). f p \<le> f ?m)"
      using pp False by (auto simp: not_less)
    then show ?thesis unfolding m by blast
  qed
qed

lemma group_end_short: "length g < 2 \<Longrightarrow> group_end s g = None"
  by (cases g) (simp_all add: group_end_def)

lemma group_end_row:
  assumes len: "2 \<le> length g" and row: "\<forall>p\<in>set g. snd p = y"
  shows "group_end s g =
     (if 0 \<le> Min (fst ` set g) - 1 \<and> (Min (fst ` set g) - 1, y) \<in> set (possible_targets s)
      then Some (Min (fst ` set g) - 1, y)
      else if Max (fst ` set g) + 1 < board_size s \<and>
              (Max (fst ` set g) + 1, y) \<in> set (possible_targets s)
      then Some (Max (fst ` set g) + 1, y)
      else None)"
proof -
  obtain g0 rest where g: "g = g0 # rest" using len by (cases g) auto
  have y: "snd g0 = y" using row g by simp
  have all: "list_all (\<lambda>(x, y). y = snd g0) (g0 # rest) = True"
    using row y unfolding g by (auto simp: list_all_iff)
  have len': "(2 \<le> length (g0 # rest)) = True" using len g by simp
  have mn: "py_min (fst g0) (map fst rest) = Min (fst ` set g)"
    and mx: "py_max (fst g0) (map fst rest) = Max (fst ` set g)"
    by (simp_all add: py_min_Min py_max_Max g)
  have "group_end s g =
     (if py_min (fst g0) (map fst rest) > 0 \<and>
         (py_min (fst g0) (map fst rest) - 1, snd g0) \<in> set (possible_targets s)
      then Some (py_min (fst g0) (map fst rest) - 1, snd g0)
      else if py_max (fst g0) (map fst rest) < board_size s - 1 \<and>
              (py_max (fst g0) (map fst rest) + 1, snd g0) \<in> set (possible_targets s)
      then Some (py_max (fst g0) (map fst rest) + 1, snd g0)
      else None)"
    unfolding g by (simp only: group_end_def list.case all len' if_True Let_def)
  then show ?thesis unfolding mn mx y by (simp add: algebra_simps)
qed

lemma group_end_column:
  assumes len: "2 \<le> length g" and norow: "\<not> (\<forall>p\<in>set g. snd p = snd (hd g))"
    and col: "\<forall>p\<in>set g. fst p = x"
  shows "group_end s g =
     (if 0 \<le> Min (snd ` set g) - 1 \<and> (x, Min (snd ` set g) - 1) \<in> set (possible_targets s)
      then Some (x, Min (snd ` set g) - 1)
      else if Max (snd ` set g) + 1 < board_size s \<and>
              (x, Max (snd ` set g) + 1) \<in> set (possible_targets s)
      then Some (x, Max (snd ` set g) + 1)
      else None)"
proof -
  obtain g0 rest where g: "g = g0 # rest" using len by (cases g) auto
  have x: "fst g0 = x" using col g by simp
  have nall: "list_all (\<lambda>(x, y). y = snd g0) (g0 # rest) = False"
    using norow unfolding g by (auto simp: list_all_iff)
  have all: "list_all (\<lambda>(x, y). x = fst g0) (g0 # rest) = True"
    using col x unfolding g by (auto simp: list_all_iff)
  have len': "(2 \<le> length (g0 # rest)) = True" using len g by simp
  have mn: "py_min (snd g0) (map snd rest) = Min (snd ` set g)"
    and mx: "py_max (snd g0) (map snd rest) = Max (snd ` set g)"
    by (simp_all add: py_min_Min py_max_Max g)
  have "group_end s g =
     (if py_min (snd g0) (map snd rest) > 0 \<and>
         (fst g0, py_min (snd g0) (map snd rest) - 1) \<in> set (possible_targets s)
      then Some (fst g0, py_min (snd g0) (map snd rest) - 1)
      else if py_max (snd g0) (map snd rest) < board_size s - 1 \<and>
              (fst g0, py_max (snd g0) (map snd rest) + 1) \<in> set (possible_targets s)
      then Some (fst g0, py_max (snd g0) (map snd rest) + 1)
      else None)"
    unfolding g by (simp only: group_end_def list.case all nall len' if_True if_False Let_def)
  then show ?thesis unfolding mn mx x by (simp add: algebra_simps)
qed

lemma group_end_crooked:
  assumes "\<not> (\<forall>p\<in>set g. snd p = snd (hd g))" "\<not> (\<forall>p\<in>set g. fst p = fst (hd g))"
  shows "group_end s g = None"
proof (cases g)
  case Nil
  then show ?thesis by (simp add: group_end_def)
next
  case (Cons g0 rest)
  have "list_all (\<lambda>(x, y). y = snd g0) (g0 # rest) = False"
    "list_all (\<lambda>(x, y). x = fst g0) (g0 # rest) = False"
    using assms unfolding Cons by (auto simp: list_all_iff)
  then show ?thesis unfolding Cons
    by (simp only: group_end_def list.case if_False if_cancel)
qed

lemma target_mode_group_end:
  assumes "group_hits u = gs1 @ g # gs2" "\<forall>g'\<in>set gs1. group_end s g' = None"
    "group_end s g = Some c"
  shows "target_mode_guess s u k = Inr c"
  using first_some_first[OF assms(2,3), of gs2] by (simp add: target_mode_guess_def assms(1))

lemma get_adjacent_positions_on_board:
  "list_all (in_board (board_size s)) (get_adjacent_positions s x y)"
  by (simp add: get_adjacent_positions_def list_all_iff)

lemma target_mode_best_adjacent:
  assumes none: "\<forall>g\<in>set (group_hits u). group_end s g = None"
    and u: "u = u1 @ h # u2"
    and before: "\<forall>h'\<in>set u1. get_adjacent_positions s (fst h') (snd h') = []"
    and adj: "get_adjacent_positions s (fst h) (snd h) = a # as"
  shows "target_mode_guess s u k = max_by_heat (heat_map s) a as"
proof -
  have g: "first_some (group_end s) (group_hits u) = None"
    using none by (simp add: first_some_None_iff)
  have b: "\<forall>h'\<in>set u1. best_adjacent s h' = None"
    using before by (simp add: best_adjacent_def)
  have "best_adjacent s h = Some (max_by_heat (heat_map s) a as)"
    using adj by (simp add: best_adjacent_def)
  from first_some_first[OF b this, of u2]
  have fs: "first_some (best_adjacent s) u = Some (max_by_heat (heat_map s) a as)"
    unfolding u .
  show ?thesis by (simp add: target_mode_guess_def g fs)
qed

lemma target_mode_fallback:
  assumes "\<forall>g\<in>set (group_hits u). group_end s g = None"
    and "\<forall>h\<in>set u. get_adjacent_positions s (fst h) (snd h) = []"
  shows "target_mode_guess s u k = hunt_mode s k"
proof -
  have g: "first_some (group_end s) (group_hits u) = None"
    using assms(1) by (simp add: first_some_None_iff)
  have "first_some (best_adjacent s) u = None"
    using assms(2) by (simp add: first_some_None_iff best_adjacent_def)
  then show ?thesis by (simp add: target_mode_guess_def g)
qed

lemma first_nonempty_nonempty: "\<exists>c\<in>set cs. c \<noteq> [] \<Longrightarrow> first_nonempty cs \<noteq> []"
  by (induction cs) auto

lemma hunt_candidates_nonempty:
  assumes ne: "possible_targets s \<noteq> []"
    and onb: "list_all (in_board (board_size s)) (possible_targets s)"
  shows "hunt_candidates s \<noteq> []"
proof (cases "hunt_pattern s = Enum DIAGONAL")
  case False
  have "sort_key f (possible_targets s) \<noteq> []" for f :: "cell \<Rightarrow> int"
    using ne by (metis length_0_conv length_sort)
  then show ?thesis using ne False
    by (simp add: hunt_candidates_def Let_def)
next
  case True
  obtain c where c: "c \<in> set (possible_targets s)" using ne by (cases "possible_targets s") auto
  obtain x y where xy: "c = (x, y)" by (cases c)
  have b: "0 \<le> x" "x < board_size s" "0 \<le> y" "y < board_size s"
    using onb c by (auto simp: list_all_iff in_board_def xy)
  have "(x, (x + y) - x) \<in> set (diagonal_cells s (x + y))"
    unfolding diagonal_cells_def using b c xy by (auto simp: set_range_py)
  then have "diagonal_cells s (x + y) \<noteq> []" by auto
  moreover have "diagonal_cells s (x + y) \<in> set (map (diagonal_cells s) (range_py (board_size s * 2)))"
    using b by (auto simp: set_range_py)
  ultimately have "first_nonempty (map (diagonal_cells s) (range_py (board_size s * 2))) \<noteq> []"
    by (intro first_nonempty_nonempty) blast
  then show ?thesis using True by (simp add: hunt_candidates_def)
qed

lemma target_mode_no_randomness:
  assumes "hunt_candidates s \<noteq> []"
  shows "target_mode_guess s u k = target_mode_guess s u k'"
proof -
  have "hunt_mode s k = hunt_mode s k'" using assms by (simp add: hunt_mode_def split: list.split)
  then show ?thesis by (simp add: target_mode_guess_def split: option.split)
qed

lemma max_by_heat_first:
  assumes "rect hm n" "list_all (in_board n) (x # xs)"
  shows "\<exists>c v pre post. max_by_heat hm x xs = Inr c \<and> x # xs = pre @ c # post \<and>
           heat_lookup hm c = Some v \<and>
           (\<forall>p\<in>set pre. \<exists>w. heat_lookup hm p = Some w \<and> w < v) \<and>
           (\<forall>p\<in>set post. \<exists>w. heat_lookup hm p = Some w \<and> w \<le> v)"
proof -
  have L: "heat_lookup hm p = Some (heat_at hm (fst p) (snd p))" if "p \<in> set (x # xs)" for p
    using assms that by (intro heat_lookup_in_board[of hm n]) (auto simp: list_all_iff)
  then have all: "list_all (\<lambda>p. heat_lookup hm p \<noteq> None) (x # xs)"
    unfolding list_all_iff by auto
  let ?f = "\<lambda>p. the (heat_lookup hm p)"
  let ?m = "max_by_key ?f x xs"
  have eq: "max_by_heat hm x xs = Inr ?m" using all by (simp add: max_by_heat_def)
  from max_by_key_first[of x xs ?f] obtain pre post where
    pp: "x # xs = pre @ ?m # post" "\<forall>p\<in>set pre. ?f p < ?f ?m" "\<forall>p\<in>set post. ?f p \<le> ?f ?m"
    by blast
  have S: "heat_lookup hm p = Some (?f p)" if "p \<in> set (x # xs)" for p
    using L[OF that] by simp
  have mem: "?m \<in> set (x # xs)" "set pre \<subseteq> set (x # xs)" "set post \<subseteq> set (x # xs)"
    unfolding pp(1) by auto
  show ?thesis
  proof (rule exI[of _ ?m], rule exI[of _ "?f ?m"], rule exI[of _ pre], rule exI[of _ post],
      intro conjI ballI)
    show "max_by_heat hm x xs = Inr ?m" by (rule eq)
    show "x # xs = pre @ ?m # post" by (rule pp(1))
    show "heat_lookup hm ?m = Some (?f ?m)" using mem(1) by (rule S)
    show "\<exists>w. heat_lookup hm p = Some w \<and> w < ?f ?m" if "p \<in> set pre" for p
      using S[of p] pp(2) that mem(2) by blast
    show "\<exists>w. heat_lookup hm p = Some w \<and> w \<le> ?f ?m" if "p \<in> set post" for p
      using S[of p] pp(3) that mem(3) by blast
  qed
qed

lemma group_hits_row_example: "group_hits [(3, 4), (4, 4)] = [[(3, 4), (4, 4)]]"
  by code_simp

lemma unsunk_hits_none_sunk: "ships_sunk s = [] \<Longrightarrow> unsunk_hits s = hits s"
  by (simp add: unsunk_hits_def)

lemma hunt_make_guess_target_mode:
  assumes "possible_targets s \<noteq> []" "priority_targets s = []" "unsunk_hits s \<noteq> []"
  shows "fst (hunt_make_guess s k) = map_sum id Some (target_mode_guess s (unsunk_hits s) k)"
proof -
  have e: "s\<lparr>priority_targets := []\<rparr> = s" using assms(2) by simp
  have "fst (hunt_make_guess s k) =
        map_sum id Some (target_mode_guess (s\<lparr>priority_targets := []\<rparr>)
                           (unsunk_hits (s\<lparr>priority_targets := []\<rparr>)) k)"
    using assms by (simp add: hunt_make_guess_def Let_def)
  then show ?thesis unfolding e .
qed

lemma hits_in_row_fields:
  "board_size hits_in_row = 10"
  "hits hits_in_row = [(3, 4), (4, 4)]"
  "misses hits_in_row = []"
  "ships_sunk hits_in_row = []"
  "priority_targets hits_in_row = []"
  "hunt_pattern hits_in_row = Enum CHECKERBOARD"
  "remaining_ship_sizes hits_in_row = [5, 4, 3, 3, 2]"
  "set (possible_targets hits_in_row) = {0..<10} \<times> {0..<10} - {(3, 4), (4, 4)}"
proof -
  have d: "distinct (possible_targets (ImprovedHuntTargetAI_init 10))"
    by (simp add: distinct_init_targets)
  let ?s1 = "update_after_guess (ImprovedHuntTargetAI_init 10) 3 4 True False None"
  have d1: "distinct (possible_targets ?s1)" using d by (rule update_after_guess_targets_set(2))
  show "set (possible_targets hits_in_row) = {0..<10} \<times> {0..<10} - {(3, 4), (4, 4)}"
    unfolding hits_in_row_def update_after_guess_targets_set(1)[OF d1]
      update_after_guess_targets_set(1)[OF d]
    by (auto simp: set_init_targets)
qed (simp_all add: hits_in_row_def update_after_guess_ships_sunk)

lemma miss_then_hits_in_row_fields:
  "board_size miss_then_hits_in_row = 10"
  "hits miss_then_hits_in_row = [(3, 4), (4, 4)]"
  "misses miss_then_hits_in_row = [(1, 4)]"
  "ships_sunk miss_then_hits_in_row = []"
  "priority_targets miss_then_hits_in_row = []"
  "hunt_pattern miss_then_hits_in_row = Enum CHECKERBOARD"
  "remaining_ship_sizes miss_then_hits_in_row = [5, 4, 3, 3, 2]"
  "set (possible_targets miss_then_hits_in_row) = {0..<10} \<times> {0..<10} - {(1, 4), (3, 4), (4, 4)}"
  "heat_map miss_then_hits_in_row = compute_heat_map miss_then_hits_in_row"
proof -
  have d: "distinct (possible_targets (ImprovedHuntTargetAI_init 10))"
    by (simp add: distinct_init_targets)
  let ?s0 = "update_after_guess (ImprovedHuntTargetAI_init 10) 1 4 False False None"
  have d0: "distinct (possible_targets ?s0)" using d by (rule update_after_guess_targets_set(2))
  let ?s1 = "update_after_guess ?s0 3 4 True False None"
  have d1: "distinct (possible_targets ?s1)" using d0 by (rule update_after_guess_targets_set(2))
  show "set (possible_targets miss_then_hits_in_row) = {0..<10} \<times> {0..<10} - {(1, 4), (3, 4), (4, 4)}"
    unfolding miss_then_hits_in_row_def update_after_guess_targets_set(1)[OF d1]
      update_after_guess_targets_set(1)[OF d0] update_after_guess_targets_set(1)[OF d]
    by (auto simp: set_init_targets)
  show "heat_map miss_then_hits_in_row = compute_heat_map miss_then_hits_in_row"
    unfolding miss_then_hits_in_row_def by (rule update_after_guess_heat_map)
qed (simp_all add: miss_then_hits_in_row_def update_after_guess_ships_sunk)

lemma Min_Max_3_4: "Min (fst ` set [(3::int, 4::int), (4, 4)]) = 3" "Max (fst ` set [(3::int, 4::int), (4, 4)]) = 4"
  by simp_all

lemma low_end_of_row_pair:
  assumes "(2, 4) \<in> set (possible_targets s)"
  shows "group_end s [(3, 4), (4, 4)] = Some (2, 4)"
  using group_end_row[of "[(3, 4), (4, 4)]" 4 s] assms by (simp add: Min_Max_3_4)

lemma row_pair_guess:
  assumes "unsunk_hits s = [(3, 4), (4, 4)]" "(2, 4) \<in> set (possible_targets s)"
    "priority_targets s = []"
  shows "fst (hunt_make_guess s k) = Inr (Some (2, 4))"
proof -
  have "target_mode_guess s (unsunk_hits s) k = Inr (2, 4)"
    unfolding assms(1)
    by (rule target_mode_group_end[of _ "[]" "[(3, 4), (4, 4)]" "[]"])
       (simp_all add: group_hits_row_example low_end_of_row_pair[OF assms(2)])
  moreover have "possible_targets s \<noteq> []" using assms(2) by auto
  ultimately show ?thesis
    using hunt_make_guess_target_mode[of s k] assms by simp
qed

section \<open>The score of a single cell\<close>

lemma in_window_horizontal:
  "(cx, cy) \<in> window x y L True \<longleftrightarrow> cy = y \<and> x \<le> cx \<and> cx < x + L"
proof
  assume "(cx, cy) \<in> window x y L True"
  then show "cy = y \<and> x \<le> cx \<and> cx < x + L" by (auto simp: window_def)
next
  assume a: "cy = y \<and> x \<le> cx \<and> cx < x + L"
  then show "(cx, cy) \<in> window x y L True"
    unfolding window_def using image_eqI[of "(cx, cy)" "\<lambda>i. (x + i, y)" "cx - x" "{0..<L}"] by simp
qed

lemma in_window_vertical:
  "(cx, cy) \<in> window x y L False \<longleftrightarrow> cx = x \<and> y \<le> cy \<and> cy < y + L"
proof
  assume "(cx, cy) \<in> window x y L False"
  then show "cx = x \<and> y \<le> cy \<and> cy < y + L" by (auto simp: window_def)
next
  assume a: "cx = x \<and> y \<le> cy \<and> cy < y + L"
  then show "(cx, cy) \<in> window x y L False"
    unfolding window_def using image_eqI[of "(cx, cy)" "\<lambda>i. (x, y + i)" "cy - y" "{0..<L}"] by simp
qed

lemma card_accepted_windows_horizontal:
  assumes "in_board (board_size s) c"
  shows "card (accepted_windows s L True c) = covering_count s L True c"
proof -
  obtain cx cy where c: "c = (cx, cy)" by (cases c)
  have cy: "0 \<le> cy" "cy < board_size s" using assms by (simp_all add: in_board_def c)
  let ?P = "\<lambda>i. 0 \<le> cx - i \<and> cx - i \<le> board_size s - L \<and> can_place_ship s (cx - i) cy L True"
  have "accepted_windows s L True c = (\<lambda>i. (cx - i, cy)) ` {i \<in> set (range_py L). ?P i}"
  proof (rule set_eqI)
    fix p :: cell
    obtain x y where p: "p = (x, y)" by (cases p)
    have "p \<in> accepted_windows s L True c \<longleftrightarrow>
          0 \<le> x \<and> x < board_size s - L + 1 \<and> 0 \<le> y \<and> y < board_size s \<and>
          can_place_ship s x y L True \<and> y = cy \<and> 0 \<le> cx - x \<and> cx - x < L"
      unfolding accepted_windows_horizontal p c by (auto simp: set_range_py in_window_horizontal)
    also have "\<dots> \<longleftrightarrow> y = cy \<and> (\<exists>i. 0 \<le> i \<and> i < L \<and> ?P i \<and> x = cx - i)"
    proof
      assume a: "0 \<le> x \<and> x < board_size s - L + 1 \<and> 0 \<le> y \<and> y < board_size s \<and>
          can_place_ship s x y L True \<and> y = cy \<and> 0 \<le> cx - x \<and> cx - x < L"
      then have "0 \<le> cx - x \<and> cx - x < L \<and> ?P (cx - x) \<and> x = cx - (cx - x)" by auto
      then show "y = cy \<and> (\<exists>i. 0 \<le> i \<and> i < L \<and> ?P i \<and> x = cx - i)" using a by blast
    next
      assume "y = cy \<and> (\<exists>i. 0 \<le> i \<and> i < L \<and> ?P i \<and> x = cx - i)"
      then show "0 \<le> x \<and> x < board_size s - L + 1 \<and> 0 \<le> y \<and> y < board_size s \<and>
          can_place_ship s x y L True \<and> y = cy \<and> 0 \<le> cx - x \<and> cx - x < L"
        using cy by auto
    qed
    also have "\<dots> \<longleftrightarrow> p \<in> (\<lambda>i. (cx - i, cy)) ` {i \<in> set (range_py L). ?P i}"
      unfolding p by (auto simp: set_range_py)
    finally show "p \<in> accepted_windows s L True c \<longleftrightarrow>
                  p \<in> (\<lambda>i. (cx - i, cy)) ` {i \<in> set (range_py L). ?P i}" .
  qed
  moreover have "inj_on (\<lambda>i. (cx - i, cy)) {i \<in> set (range_py L). ?P i}"
    by (auto simp: inj_on_def)
  ultimately have "card (accepted_windows s L True c) = card {i \<in> set (range_py L). ?P i}"
    by (simp add: card_image)
  also have "\<dots> = length (filter ?P (range_py L))"
    using distinct_length_filter[OF distinct_range_py, of ?P L] by (simp add: Int_def conj_commute)
  finally show ?thesis by (simp add: covering_count_def c)
qed

lemma card_accepted_windows_vertical:
  assumes "in_board (board_size s) c"
  shows "card (accepted_windows s L False c) = covering_count s L False c"
proof -
  obtain cx cy where c: "c = (cx, cy)" by (cases c)
  have cx: "0 \<le> cx" "cx < board_size s" using assms by (simp_all add: in_board_def c)
  let ?P = "\<lambda>i. 0 \<le> cy - i \<and> cy - i \<le> board_size s - L \<and> can_place_ship s cx (cy - i) L False"
  have "accepted_windows s L False c = (\<lambda>i. (cx, cy - i)) ` {i \<in> set (range_py L). ?P i}"
  proof (rule set_eqI)
    fix p :: cell
    obtain x y where p: "p = (x, y)" by (cases p)
    have "p \<in> accepted_windows s L False c \<longleftrightarrow>
          0 \<le> x \<and> x < board_size s \<and> 0 \<le> y \<and> y < board_size s - L + 1 \<and>
          can_place_ship s x y L False \<and> x = cx \<and> 0 \<le> cy - y \<and> cy - y < L"
      unfolding accepted_windows_vertical p c by (auto simp: set_range_py in_window_vertical)
    also have "\<dots> \<longleftrightarrow> x = cx \<and> (\<exists>i. 0 \<le> i \<and> i < L \<and> ?P i \<and> y = cy - i)"
    proof
      assume a: "0 \<le> x \<and> x < board_size s \<and> 0 \<le> y \<and> y < board_size s - L + 1 \<and>
          can_place_ship s x y L False \<and> x = cx \<and> 0 \<le> cy - y \<and> cy - y < L"
      then have "0 \<le> cy - y \<and> cy - y < L \<and> ?P (cy - y) \<and> y = cy - (cy - y)" by auto
      then show "x = cx \<and> (\<exists>i. 0 \<le> i \<and> i < L \<and> ?P i \<and> y = cy - i)" using a by blast
    next
      assume "x = cx \<and> (\<exists>i. 0 \<le> i \<and> i < L \<and> ?P i \<and> y = cy - i)"
      then show "0 \<le> x \<and> x < board_size s \<and> 0 \<le> y \<and> y < board_size s - L + 1 \<and>
          can_place_ship s x y L False \<and> x = cx \<and> 0 \<le> cy - y \<and> cy - y < L"
        using cx by auto
    qed
    also have "\<dots> \<longleftrightarrow> p \<in> (\<lambda>i. (cx, cy - i)) ` {i \<in> set (range_py L). ?P i}"
      unfolding p by (auto simp: set_range_py)
    finally show "p \<in> accepted_windows s L False c \<longleftrightarrow>
                  p \<in> (\<lambda>i. (cx, cy - i)) ` {i \<in> set (range_py L). ?P i}" .
  qed
  moreover have "inj_on (\<lambda>i. (cx, cy - i)) {i \<in> set (range_py L). ?P i}"
    by (auto simp: inj_on_def)
  ultimately have "card (accepted_windows s L False c) = card {i \<in> set (range_py L). ?P i}"
    by (simp add: card_image)
  also have "\<dots> = length (filter ?P (range_py L))"
    using distinct_length_filter[OF distinct_range_py, of ?P L] by (simp add: Int_def conj_commute)
  finally show ?thesis by (simp add: covering_count_def c)
qed

lemma placement_count_cell_score:
  "in_board (board_size s) c \<Longrightarrow> placement_count s c = cell_score s c"
  by (simp add: placement_count_def cell_score_def card_accepted_windows_horizontal
      card_accepted_windows_vertical)

lemma heat_lookup_cell_score:
  assumes "heat_map s = compute_heat_map s" "in_board (board_size s) c"
  shows "heat_lookup (heat_map s) c = Some (cell_score s c)"
proof -
  have "0 \<le> board_size s" using assms(2) by (simp add: in_board_def)
  then have "rect (heat_map s) (board_size s)" unfolding assms(1) by (rule rect_compute_heat_map)
  from heat_lookup_in_board[OF this assms(2)]
  show ?thesis
    using heat_at_placement_count[of s "fst c" "snd c"] placement_count_cell_score[of s c] assms
    by simp
qed

lemma cell_score_cong:
  "board_size s = board_size t \<Longrightarrow> hits s = hits t \<Longrightarrow> misses s = misses t \<Longrightarrow>
   remaining_ship_sizes s = remaining_ship_sizes t \<Longrightarrow> cell_score s c = cell_score t c"
  by (simp add: cell_score_def covering_count_def can_place_ship_def)

lemma score_low_end_example: "cell_score ((BaseAI_init 10)\<lparr>hits := [(3,4),(4,4)], misses := [(1,4)]\<rparr>) (2,4) = 22"
  by code_simp

lemma score_high_end_example: "cell_score ((BaseAI_init 10)\<lparr>hits := [(3,4),(4,4)], misses := [(1,4)]\<rparr>) (5,4) = 33"
  by code_simp

section \<open>The claims about the probability field\<close>

text \<open>
  C1, as amended. The claim says that every fired cell, hit or miss, has score 0 after a
  recomputation. The code clears no hit cell: a placement through a hit is counted like any
  other. What holds is that every miss cell on the board has score 0 in every reachable
  state, because a window over a miss is never accepted.
\<close>

theorem miss_cells_have_zero_heat:
  assumes "reachable s" "(cx, cy) \<in> set (misses s)" "in_board (board_size s) (cx, cy)"
  shows "heat_at (heat_map s) cx cy = 0"
  using reachable_heat_map[OF assms(1)] heat_at_placement_count[OF assms(3)] miss_not_placed[OF assms(2)]
  by (auto simp: heat_at_zeros)

theorem miss_cells_have_zero_heat_witness:
  "reachable (update_after_guess (BaseAI_init 10) 3 4 False False None) \<and>
   (3, 4) \<in> set (misses (update_after_guess (BaseAI_init 10) 3 4 False False None)) \<and>
   in_board (board_size (update_after_guess (BaseAI_init 10) 3 4 False False None)) (3, 4) \<and>
   heat_at (heat_map (update_after_guess (BaseAI_init 10) 3 4 False False None)) 3 4 = 0"
proof -
  let ?s = "update_after_guess (BaseAI_init 10) 3 4 False False None"
  have r: "reachable ?s" by (intro reachable.intros) simp
  have m: "(3, 4) \<in> set (misses ?s)" by simp
  have b: "in_board (board_size ?s) (3, 4)" by (simp add: in_board_def BaseAI_init_def)
  from miss_cells_have_zero_heat[OF r m b] r m b show ?thesis by simp
qed

text \<open>
  C1 as stated fails: after a hit at \<open>(0, 0)\<close> on a fresh 10 by 10 board the cell is in
  \<open>shots_fired\<close> and its score is not 0.
\<close>

theorem hit_cell_heat_counterexample:
  "reachable (update_after_guess (BaseAI_init 10) 0 0 True False None) \<and>
   (0, 0) \<in> set (shots_fired (update_after_guess (BaseAI_init 10) 0 0 True False None)) \<and>
   heat_at (heat_map (update_after_guess (BaseAI_init 10) 0 0 True False None)) 0 0 \<noteq> 0"
proof -
  let ?s = "update_after_guess (BaseAI_init 10) 0 0 True False None"
  have r: "reachable ?s" by (intro reachable.intros) simp
  have b: "in_board (board_size ?s) (0, 0)" by (simp add: in_board_def BaseAI_init_def)
  have cp: "can_place_ship ?s 0 0 2 True"
    by (simp add: can_place_ship_def positions_of_def range_py_def BaseAI_init_def upto_rec1)
  have "(0, 0) \<in> window 0 0 2 True" by (simp add: window_def)
  from accepted_windowI[OF _ _ cp this] have "(0, 0) \<in> accepted_windows ?s 2 True (0, 0)" by simp
  moreover have "2 \<in> set (remaining_ship_sizes ?s)" by (simp add: BaseAI_init_def)
  ultimately have "0 < placement_count ?s (0, 0)" by (rule placement_count_pos[rotated])
  then have "heat_at (heat_map ?s) 0 0 \<noteq> 0"
    using heat_at_placement_count[OF b] by (simp add: update_after_guess_heat_map)
  with r show ?thesis by simp
qed

text \<open>
  C6. After \<open>_update_heat_map\<close> the score of every cell of the board is the number of
  accepted placement windows that cover it, summed over the remaining ship lengths and both
  orientations, where a window is rejected exactly when a cell of it is off the board, a cell
  of it is a known miss, or its hits are not contiguous along the axis.
\<close>

theorem heat_map_counts_accepted_windows:
  "in_board (board_size s) (cx, cy) \<Longrightarrow>
   heat_at (heat_map (update_heat_map s)) cx cy = placement_count s (cx, cy)"
  by (simp add: heat_at_placement_count)

theorem heat_map_counts_accepted_windows_witness:
  "in_board (board_size (BaseAI_init 2)) (0, 0) \<and>
   heat_at (heat_map (update_heat_map (BaseAI_init 2))) 0 0 = placement_count (BaseAI_init 2) (0, 0) \<and>
   placement_count (BaseAI_init 2) (0, 0) = 2"
proof -
  have b: "in_board (board_size (BaseAI_init 2)) (0, 0)" by (simp add: in_board_def BaseAI_init_def)
  have v: "heat_at (compute_heat_map (BaseAI_init 2)) 0 0 = 2" by code_simp
  from heat_map_counts_accepted_windows[OF b] b v show ?thesis by simp
qed

section \<open>The claims about recording a shot\<close>

text \<open>
  C3, as amended. The claim says that recording a shot fails with \<open>InvalidShot\<close> exactly
  for a cell off the board or fired at before. \<open>update_after_guess\<close> validates nothing and
  has no failure path: for every cell and outcome it succeeds, appends the cell to
  \<open>shots_fired\<close> and to \<open>hits\<close> or \<open>misses\<close>, and keeps the board size.
\<close>

theorem record_shot_result_never_fails:
  "\<exists>s'. record_shot_result s c outcome = Inr s' \<and>
        board_size s' = board_size s \<and>
        shots_fired s' = shots_fired s @ [c] \<and>
        hits s' = (if outcome = Miss then hits s else hits s @ [c]) \<and>
        misses s' = (if outcome = Miss then misses s @ [c] else misses s)"
  by (cases c; cases outcome) simp_all

theorem record_shot_result_never_fails_witness:
  "\<exists>s'. record_shot_result (BaseAI_init 10) (10, -1) Hit = Inr s' \<and>
        board_size s' = 10 \<and> shots_fired s' = [(10, -1)] \<and> hits s' = [(10, -1)] \<and> misses s' = []"
  using record_shot_result_never_fails[of "BaseAI_init 10" "(10, -1)" Hit]
  by simp

text \<open>
  C3 as stated fails: a second shot at \<open>(0, 0)\<close> and a shot at the cell \<open>(10, -1)\<close>
  off the 10 by 10 board are both recorded without \<open>InvalidShot\<close>.
\<close>

theorem record_shot_result_invalid_counterexample:
  "(0, 0) \<in> set (shots_fired (update_after_guess (BaseAI_init 10) 0 0 False False None)) \<and>
   record_shot_result (update_after_guess (BaseAI_init 10) 0 0 False False None) (0, 0) Miss
     \<noteq> Inl InvalidShot \<and>
   shots_fired (update_after_guess (update_after_guess (BaseAI_init 10) 0 0 False False None)
                  0 0 False False None) = [(0, 0), (0, 0)] \<and>
   \<not> in_board (board_size (BaseAI_init 10)) (10, -1) \<and>
   record_shot_result (BaseAI_init 10) (10, -1) Hit \<noteq> Inl InvalidShot"
  by (simp add: in_board_def)

text \<open>
  C5, as amended. The claim says that a sinking of length \<open>L\<close> reported where fewer than
  \<open>L\<close> connected hit cells exist fails with \<open>ReconstructionAmbiguous\<close>. The code returns
  the empty reconstruction and goes on: the shot is recorded exactly as a plain hit, no ship
  is added to \<open>ships_sunk\<close> and the remaining lengths are unchanged.
\<close>

theorem short_sinking_recorded_as_hit:
  assumes "int (card (hit_component (board_size s) (hits s @ [(x, y)]) (x, y))) < L"
  shows "record_shot_result s (x, y) (HitAndSunk L) = record_shot_result s (x, y) Hit \<and>
         record_shot_result s (x, y) (HitAndSunk L) = Inr (update_after_guess s x y True False None) \<and>
         ships_sunk (update_after_guess s x y True True (Some L)) = ships_sunk s \<and>
         remaining_ship_sizes (update_after_guess s x y True True (Some L)) = remaining_ship_sizes s"
proof -
  let ?sh = "s\<lparr>shots_fired := shots_fired s @ [(x, y)], hits := hits s @ [(x, y)],
               last_shot_result := Some ''hit''\<rparr>"
  have "int (card (hit_component (board_size ?sh) (hits ?sh) (x, y))) < L" using assms by simp
  then have "find_ship_from_last_hit ?sh x y L = []" by (rule find_ship_none)
  then have "sunk_ship_of s x y True True (Some L) = []" by (simp add: sunk_ship_of_def)
  then have "update_after_guess s x y True True (Some L) = update_after_guess s x y True False None"
    by (rule update_after_guess_no_ship)
  then show ?thesis by (simp add: update_after_guess_ships_sunk sunk_ship_of_def)
qed

theorem short_sinking_recorded_as_hit_witness:
  "int (card (hit_component (board_size (BaseAI_init 10)) (hits (BaseAI_init 10) @ [(5, 0)]) (5, 0))) < 2 \<and>
   record_shot_result (BaseAI_init 10) (5, 0) (HitAndSunk 2) = record_shot_result (BaseAI_init 10) (5, 0) Hit \<and>
   ships_sunk (update_after_guess (BaseAI_init 10) 5 0 True True (Some 2)) = []"
proof -
  have c: "int (card (hit_component (board_size (BaseAI_init 10)) (hits (BaseAI_init 10) @ [(5, 0)]) (5, 0))) < 2"
    using card_hit_component_le[of "board_size (BaseAI_init 10)" "hits (BaseAI_init 10) @ [(5, 0)]" "(5, 0)"]
    by simp
  from short_sinking_recorded_as_hit[OF c] c show ?thesis
    by (simp add: update_after_guess_ships_sunk)
qed

text \<open>
  C5 as stated fails: a sinking of length 2 reported at the single hit \<open>(5, 0)\<close> of a fresh
  board is not rejected.
\<close>

theorem sink_single_hit_counterexample:
  "int (card (hit_component (board_size (BaseAI_init 10)) (hits (BaseAI_init 10) @ [(5, 0)]) (5, 0))) < 2 \<and>
   record_shot_result (BaseAI_init 10) (5, 0) (HitAndSunk 2) \<noteq> Inl ReconstructionAmbiguous"
  using card_hit_component_le[of "board_size (BaseAI_init 10)" "hits (BaseAI_init 10) @ [(5, 0)]" "(5, 0)"]
  by simp

text \<open>
  C4, as amended. When a sinking of length \<open>L\<close> is recorded at a cell with at least \<open>L\<close>
  connected hit cells (the new hit included), one ship of exactly \<open>L\<close> distinct connected
  hit cells, the fired cell among them, is appended to \<open>ships_sunk\<close>; one instance of \<open>L\<close>
  is removed from the remaining lengths when there is one, and the list is left as it is,
  with no failure, when there is none; and no cell within Chebyshev distance 1 of the ship
  remains a target.
\<close>

theorem sinking_reconstructs_ship:
  assumes L: "0 < L"
    and enough: "L \<le> int (card (hit_component (board_size s) (hits s @ [(x, y)]) (x, y)))"
    and ok: "targets_ok s"
  shows "\<exists>ship.
     record_shot_result s (x, y) (HitAndSunk L) = Inr (update_after_guess s x y True True (Some L)) \<and>
     ships_sunk (update_after_guess s x y True True (Some L)) =
       ships_sunk s @ [\<lparr>size_ship = L, hits_ship = ship, orientation = None, sunk = True\<rparr>] \<and>
     int (length ship) = L \<and> distinct ship \<and> (x, y) \<in> set ship \<and>
     set ship \<subseteq> hit_component (board_size s) (hits s @ [(x, y)]) (x, y) \<and>
     remaining_ship_sizes (update_after_guess s x y True True (Some L)) =
       (if L \<in> set (remaining_ship_sizes s) then remove1 L (remaining_ship_sizes s)
        else remaining_ship_sizes s) \<and>
     (\<forall>c\<in>set ship. \<forall>n. chebyshev_near c n \<longrightarrow>
        n \<notin> set (possible_targets (update_after_guess s x y True True (Some L))))"
proof -
  let ?ship = "sunk_ship_of s x y True True (Some L)"
  note f = sunk_ship_of_found[OF L enough]
  from f(1) L have ne: "?ship \<noteq> []" by auto
  have d: "distinct (possible_targets s)" and inb: "\<forall>n\<in>set (possible_targets s). in_board (board_size s) n"
    using ok by (simp_all add: targets_ok_def list_all_iff)
  have purge: "\<forall>c\<in>set ?ship. \<forall>n. chebyshev_near c n \<longrightarrow>
        n \<notin> set (possible_targets (update_after_guess s x y True True (Some L)))"
    unfolding update_after_guess_targets_set(1)[OF d] using inb by auto
  show ?thesis
    using f purge ne by (intro exI[of _ ?ship])
      (simp add: update_after_guess_ships_sunk update_after_guess_remaining)
qed

theorem sinking_reconstructs_ship_witness:
  "(0::int) < 2 \<and>
   2 \<le> int (card (hit_component (board_size one_hit) (hits one_hit @ [(0, 1)]) (0, 1))) \<and>
   targets_ok one_hit \<and>
   length (ships_sunk (update_after_guess one_hit 0 1 True True (Some 2))) = 1 \<and>
   remaining_ship_sizes (update_after_guess one_hit 0 1 True True (Some 2)) = [5, 4, 3, 3] \<and>
   (1, 2) \<notin> set (possible_targets (update_after_guess one_hit 0 1 True True (Some 2)))"
proof -
  have c: "2 \<le> int (card (hit_component (board_size one_hit) (hits one_hit @ [(0, 1)]) (0, 1)))"
    by (rule two_connected_hits[where b = "(0, 0)"])
       (simp_all add: one_hit_def neighbours4_def in_board_def)
  have r: "reachable one_hit" unfolding one_hit_def by (intro reachable.intros) simp
  then have ok: "targets_ok one_hit" by (rule reachable_targets_ok)
  have near: "chebyshev_near (0, 1) (1, 2)" by (simp add: chebyshev_near_def)
  from sinking_reconstructs_ship[OF _ c ok] obtain ship where
    "ships_sunk (update_after_guess one_hit 0 1 True True (Some 2)) =
       ships_sunk one_hit @ [\<lparr>size_ship = 2, hits_ship = ship, orientation = None, sunk = True\<rparr>]"
    "(0, 1) \<in> set ship"
    "remaining_ship_sizes (update_after_guess one_hit 0 1 True True (Some 2)) =
       (if 2 \<in> set (remaining_ship_sizes one_hit) then remove1 2 (remaining_ship_sizes one_hit)
        else remaining_ship_sizes one_hit)"
    "\<forall>c\<in>set ship. \<forall>n. chebyshev_near c n \<longrightarrow>
        n \<notin> set (possible_targets (update_after_guess one_hit 0 1 True True (Some 2)))"
    by auto
  moreover have "ships_sunk one_hit = []"
    by (simp add: one_hit_def update_after_guess_ships_sunk)
  moreover have "remaining_ship_sizes one_hit = [5, 4, 3, 3, 2]"
    by (simp add: one_hit_def)
  ultimately show ?thesis using c ok near by auto
qed

text \<open>
  C4 as stated fails in its failure clause: after the ship of length 2 is sunk, a second
  sinking of length 2 is recorded without \<open>UnknownShipLength\<close>, and the remaining lengths
  stay as they are.
\<close>

theorem sinking_unknown_length_counterexample:
  "reachable sunk_two_then_hit \<and>
   2 \<notin> set (remaining_ship_sizes sunk_two_then_hit) \<and>
   2 \<le> int (card (hit_component (board_size sunk_two_then_hit)
                    (hits sunk_two_then_hit @ [(5, 6)]) (5, 6))) \<and>
   record_shot_result sunk_two_then_hit (5, 6) (HitAndSunk 2) \<noteq> Inl UnknownShipLength \<and>
   remaining_ship_sizes (update_after_guess sunk_two_then_hit 5 6 True True (Some 2))
     = remaining_ship_sizes sunk_two_then_hit"
proof -
  have c1: "2 \<le> int (card (hit_component (board_size one_hit) (hits one_hit @ [(0, 1)]) (0, 1)))"
    by (rule two_connected_hits[where b = "(0, 0)"])
       (simp_all add: one_hit_def neighbours4_def in_board_def)
  from sunk_ship_of_found(1)[OF _ c1] have "sunk_ship_of one_hit 0 1 True True (Some 2) \<noteq> []"
    by auto
  then have rem: "remaining_ship_sizes sunk_two_then_hit = [5, 4, 3, 3]"
    by (simp add: sunk_two_then_hit_def update_after_guess_remaining) (simp add: one_hit_def)
  have r: "reachable sunk_two_then_hit"
    unfolding sunk_two_then_hit_def one_hit_def by (intro reachable.intros) simp
  have c2: "2 \<le> int (card (hit_component (board_size sunk_two_then_hit)
                    (hits sunk_two_then_hit @ [(5, 6)]) (5, 6)))"
    by (rule two_connected_hits[where b = "(5, 5)"])
       (simp_all add: sunk_two_then_hit_def one_hit_def neighbours4_def in_board_def)
  show ?thesis using r c2 rem by (simp add: update_after_guess_remaining)
qed

section \<open>The claims about the hunt and target engine\<close>

text \<open>
  C8. With the checkerboard pattern the hunt candidates are the targets \<open>(x, y)\<close> with
  \<open>(x + y) mod 2 = 0\<close>, in the order of the targets, and all the targets when none has
  parity 0. On a board with no hit (and no priority target: the source never adds one), in a
  state whose targets are on the board and whose heat map has the shape of the board (every
  state the engine reaches), \<open>make_guess\<close> returns a candidate of highest heat; so it returns
  a cell of parity 0 whenever a target of parity 0 remains.
\<close>

theorem checkerboard_hunting_parity:
  assumes pat: "hunt_pattern s = Enum CHECKERBOARD"
    and pri: "priority_targets s = []"
    and nohit: "hits s = []"
    and ne: "possible_targets s \<noteq> []"
    and onb: "list_all (in_board (board_size s)) (possible_targets s)"
    and rc: "rect (heat_map s) (board_size s)"
  shows "hunt_candidates s =
           (if list_ex (\<lambda>(x, y). (x + y) mod 2 = 0) (possible_targets s)
            then filter (\<lambda>(x, y). (x + y) mod 2 = 0) (possible_targets s)
            else possible_targets s) \<and>
         (\<exists>x y v. fst (hunt_make_guess s k) = Inr (Some (x, y)) \<and>
                 (x, y) \<in> set (hunt_candidates s) \<and>
                 (x, y) \<in> set (possible_targets s) \<and>
                 heat_lookup (heat_map s) (x, y) = Some v \<and>
                 (\<forall>c'\<in>set (hunt_candidates s). \<exists>v'. heat_lookup (heat_map s) c' = Some v' \<and> v' \<le> v) \<and>
                 (list_ex (\<lambda>(x, y). (x + y) mod 2 = 0) (possible_targets s) \<longrightarrow> (x + y) mod 2 = 0))"
proof -
  let ?P = "\<lambda>(x, y). (x + y) mod 2 = (0::int)"
  have cand: "hunt_candidates s =
           (if list_ex ?P (possible_targets s) then filter ?P (possible_targets s)
            else possible_targets s)"
    using pat by (rule checkerboard_candidates_list)
  have cne: "hunt_candidates s \<noteq> []"
    unfolding cand using ne by (auto simp: list_ex_iff filter_empty_conv)
  from hunt_mode_on_board[OF ne onb rc, of k] cne obtain c v where
    c: "hunt_mode s k = Inr c" "c \<in> set (possible_targets s)" "c \<in> set (hunt_candidates s)"
       "heat_lookup (heat_map s) c = Some v"
       "\<forall>c'\<in>set (hunt_candidates s). \<exists>v'. heat_lookup (heat_map s) c' = Some v' \<and> v' \<le> v"
    by blast
  obtain x y where xy: "c = (x, y)" by (cases c)
  have g: "fst (hunt_make_guess s k) = Inr (Some (x, y))"
    using ne pri unsunk_hits_no_hits[OF nohit] c(1)
    by (simp add: hunt_make_guess_def Let_def xy)
  have par: "(x + y) mod 2 = 0" if "list_ex ?P (possible_targets s)"
    using c(3) that unfolding cand xy by simp
  have "\<exists>x y v. fst (hunt_make_guess s k) = Inr (Some (x, y)) \<and>
                 (x, y) \<in> set (hunt_candidates s) \<and>
                 (x, y) \<in> set (possible_targets s) \<and>
                 heat_lookup (heat_map s) (x, y) = Some v \<and>
                 (\<forall>c'\<in>set (hunt_candidates s). \<exists>v'. heat_lookup (heat_map s) c' = Some v' \<and> v' \<le> v) \<and>
                 (list_ex ?P (possible_targets s) \<longrightarrow> (x + y) mod 2 = 0)"
  proof (rule exI[of _ x], rule exI[of _ y], rule exI[of _ v], intro conjI impI)
    show "fst (hunt_make_guess s k) = Inr (Some (x, y))" by (rule g)
    show "(x, y) \<in> set (hunt_candidates s)" using c(3) unfolding xy .
    show "(x, y) \<in> set (possible_targets s)" using c(2) unfolding xy .
    show "heat_lookup (heat_map s) (x, y) = Some v" using c(4) unfolding xy .
    show "\<forall>c'\<in>set (hunt_candidates s). \<exists>v'. heat_lookup (heat_map s) c' = Some v' \<and> v' \<le> v"
      by (rule c(5))
    show "(x + y) mod 2 = 0" if "list_ex ?P (possible_targets s)" using that by (rule par)
  qed
  with cand show ?thesis by (rule conjI)
qed

theorem checkerboard_hunting_parity_witness:
  "(\<exists>x y v. fst (hunt_make_guess (update_after_guess (ImprovedHuntTargetAI_init 10) 0 0 False False None) 0)
              = Inr (Some (x, y)) \<and> (x + y) mod 2 = 0 \<and>
       (x, y) \<in> set (possible_targets (update_after_guess (ImprovedHuntTargetAI_init 10) 0 0 False False None)) \<and>
       heat_lookup (heat_map (update_after_guess (ImprovedHuntTargetAI_init 10) 0 0 False False None)) (x, y)
         = Some v) \<and>
   hunt_candidates (update_after_guess (update_after_guess (ImprovedHuntTargetAI_init 2)
       0 0 False False None) 1 1 False False None) = [(0, 1), (1, 0)] \<and>
   fst (hunt_make_guess (update_after_guess (update_after_guess (ImprovedHuntTargetAI_init 2)
       0 0 False False None) 1 1 False False None) 0) = Inr (Some (0, 1))"
proof -
  let ?P = "\<lambda>(x, y). (x + y) mod 2 = (0::int)"
  let ?s = "update_after_guess (ImprovedHuntTargetAI_init 10) 0 0 False False None"
  let ?t = "update_after_guess (update_after_guess (ImprovedHuntTargetAI_init 2)
       0 0 False False None) 1 1 False False None"
  have d: "distinct (possible_targets (ImprovedHuntTargetAI_init 10))"
    by (simp add: distinct_init_targets)
  have ts: "set (possible_targets ?s) = {0..<10} \<times> {0..<10} - {(0, 0)}"
    unfolding update_after_guess_targets_set(1)[OF d] by (simp add: set_init_targets)
  have t: "(1, 1) \<in> set (possible_targets ?s)" unfolding ts by simp
  then have ne: "possible_targets ?s \<noteq> []" by auto
  have ex: "list_ex ?P (possible_targets ?s)"
    unfolding list_ex_iff by (rule bexI[OF _ t]) simp
  have h: "hunt_pattern ?s = Enum CHECKERBOARD" "priority_targets ?s = []" "hits ?s = []"
    by simp_all
  have "targets_ok ?s" by (intro targets_ok_update targets_ok_hunt_init)
  then have onb: "list_all (in_board (board_size ?s)) (possible_targets ?s)"
    by (simp add: targets_ok_def)
  have rc: "rect (heat_map ?s) (board_size ?s)"
    using rect_update_after_guess[of "ImprovedHuntTargetAI_init 10" 0 0 False False None] by simp
  have "\<exists>x y v. fst (hunt_make_guess ?s 0) = Inr (Some (x, y)) \<and>
                 (x, y) \<in> set (hunt_candidates ?s) \<and>
                 (x, y) \<in> set (possible_targets ?s) \<and>
                 heat_lookup (heat_map ?s) (x, y) = Some v \<and>
                 (\<forall>c'\<in>set (hunt_candidates ?s). \<exists>v'. heat_lookup (heat_map ?s) c' = Some v' \<and> v' \<le> v) \<and>
                 (list_ex ?P (possible_targets ?s) \<longrightarrow> (x + y) mod 2 = 0)"
    using checkerboard_hunting_parity[OF h ne onb rc, of 0] by (rule conjunct2)
  then obtain x y v where "fst (hunt_make_guess ?s 0) = Inr (Some (x, y))"
    "(x, y) \<in> set (possible_targets ?s)" "heat_lookup (heat_map ?s) (x, y) = Some v"
    "list_ex ?P (possible_targets ?s) \<longrightarrow> (x + y) mod 2 = 0" by (elim exE conjE)
  with ex have A: "\<exists>x y v. fst (hunt_make_guess ?s 0) = Inr (Some (x, y)) \<and> (x + y) mod 2 = 0 \<and>
       (x, y) \<in> set (possible_targets ?s) \<and> heat_lookup (heat_map ?s) (x, y) = Some v"
    by (intro exI conjI) simp_all
  have tt: "possible_targets ?t = [(0, 1), (1, 0)]" and gt: "fst (hunt_make_guess ?t 0) = Inr (Some (0, 1))"
    using fallback_example by simp_all
  have ht: "hunt_pattern ?t = Enum CHECKERBOARD" "priority_targets ?t = []" "hits ?t = []"
    by simp_all
  have net: "possible_targets ?t \<noteq> []" unfolding tt by simp
  have "targets_ok ?t" by (intro targets_ok_update targets_ok_hunt_init)
  then have onbt: "list_all (in_board (board_size ?t)) (possible_targets ?t)"
    by (simp add: targets_ok_def)
  have rct: "rect (heat_map ?t) (board_size ?t)"
    using rect_update_after_guess[of "update_after_guess (ImprovedHuntTargetAI_init 2) 0 0 False False None"
        1 1 False False None] by simp
  have "hunt_candidates ?t =
           (if list_ex ?P (possible_targets ?t) then filter ?P (possible_targets ?t)
            else possible_targets ?t)"
    using checkerboard_hunting_parity[OF ht net onbt rct, of 0] by (rule conjunct1)
  then have B: "hunt_candidates ?t = [(0, 1), (1, 0)]" unfolding tt by simp
  from A B gt show ?thesis by (intro conjI)
qed

text \<open>
  C7, as amended. Target mode does not rank the candidates of all groups by score; it tries
  them in a fixed order. The groups are taken in the order \<open>_group_hits\<close> builds them. A
  group of two or more hits in one row (in one column) proposes the cell before its lowest
  end when that cell is at coordinate 0 or more and is a target, and otherwise the cell after
  its highest end when that cell is below the board size and is a target; a group of fewer
  than two hits proposes nothing. The result is the proposal of the first group that has
  one, whatever the scores. Only when no group proposes a cell are scores compared: for the
  first unsunk hit with a target among its orthogonal neighbours on the board, taken in the
  order \<open>(x, y+1)\<close>, \<open>(x+1, y)\<close>, \<open>(x, y-1)\<close>, \<open>(x-1, y)\<close>, the neighbour of highest
  heat is chosen, the first one in that order among equals. When no hit has such a neighbour
  the result is that of hunt mode. No random choice is involved as long as a target on the
  board remains.
\<close>

theorem target_mode_fixed_order:
  fixes s :: "'a hunt_ai_scheme"
  shows
   "(\<forall>g y. 2 \<le> length g \<and> (\<forall>p\<in>set g. snd p = y) \<longrightarrow>
       group_end s g =
         (if 0 \<le> Min (fst ` set g) - 1 \<and> (Min (fst ` set g) - 1, y) \<in> set (possible_targets s)
          then Some (Min (fst ` set g) - 1, y)
          else if Max (fst ` set g) + 1 < board_size s \<and>
                  (Max (fst ` set g) + 1, y) \<in> set (possible_targets s)
          then Some (Max (fst ` set g) + 1, y)
          else None)) \<and>
    (\<forall>g x. 2 \<le> length g \<and> \<not> (\<forall>p\<in>set g. snd p = snd (hd g)) \<and> (\<forall>p\<in>set g. fst p = x) \<longrightarrow>
       group_end s g =
         (if 0 \<le> Min (snd ` set g) - 1 \<and> (x, Min (snd ` set g) - 1) \<in> set (possible_targets s)
          then Some (x, Min (snd ` set g) - 1)
          else if Max (snd ` set g) + 1 < board_size s \<and>
                  (x, Max (snd ` set g) + 1) \<in> set (possible_targets s)
          then Some (x, Max (snd ` set g) + 1)
          else None)) \<and>
    (\<forall>g. length g < 2 \<longrightarrow> group_end s g = None) \<and>
    (\<forall>gs1 g gs2 c.
       group_hits u = gs1 @ g # gs2 \<and> (\<forall>g'\<in>set gs1. group_end s g' = None) \<and>
       group_end s g = Some c \<longrightarrow>
       target_mode_guess s u k = Inr c) \<and>
    (\<forall>x y. get_adjacent_positions s x y =
       filter (\<lambda>n. in_board (board_size s) n \<and> n \<in> set (possible_targets s))
         [(x, y + 1), (x + 1, y), (x, y - 1), (x - 1, y)]) \<and>
    (\<forall>u1 h u2 a as.
       (\<forall>g\<in>set (group_hits u). group_end s g = None) \<and> u = u1 @ h # u2 \<and>
       (\<forall>h'\<in>set u1. get_adjacent_positions s (fst h') (snd h') = []) \<and>
       get_adjacent_positions s (fst h) (snd h) = a # as \<and>
       rect (heat_map s) (board_size s) \<longrightarrow>
       (\<exists>c v pre post.
          target_mode_guess s u k = Inr c \<and> a # as = pre @ c # post \<and>
          heat_lookup (heat_map s) c = Some v \<and>
          (\<forall>p\<in>set pre. \<exists>w. heat_lookup (heat_map s) p = Some w \<and> w < v) \<and>
          (\<forall>p\<in>set post. \<exists>w. heat_lookup (heat_map s) p = Some w \<and> w \<le> v))) \<and>
    ((\<forall>g\<in>set (group_hits u). group_end s g = None) \<and>
     (\<forall>h\<in>set u. get_adjacent_positions s (fst h) (snd h) = []) \<longrightarrow>
       target_mode_guess s u k = hunt_mode s k) \<and>
    (possible_targets s \<noteq> [] \<and> list_all (in_board (board_size s)) (possible_targets s) \<longrightarrow>
       target_mode_guess s u k = target_mode_guess s u k')"
proof (intro conjI allI impI)
  fix g :: "cell list" and y :: int assume "2 \<le> length g \<and> (\<forall>p\<in>set g. snd p = y)"
  then show "group_end s g =
         (if 0 \<le> Min (fst ` set g) - 1 \<and> (Min (fst ` set g) - 1, y) \<in> set (possible_targets s)
          then Some (Min (fst ` set g) - 1, y)
          else if Max (fst ` set g) + 1 < board_size s \<and>
                  (Max (fst ` set g) + 1, y) \<in> set (possible_targets s)
          then Some (Max (fst ` set g) + 1, y)
          else None)"
    using group_end_row[of g y s] by blast
next
  fix g :: "cell list" and x :: int assume "2 \<le> length g \<and> \<not> (\<forall>p\<in>set g. snd p = snd (hd g)) \<and> (\<forall>p\<in>set g. fst p = x)"
  then show "group_end s g =
         (if 0 \<le> Min (snd ` set g) - 1 \<and> (x, Min (snd ` set g) - 1) \<in> set (possible_targets s)
          then Some (x, Min (snd ` set g) - 1)
          else if Max (snd ` set g) + 1 < board_size s \<and>
                  (x, Max (snd ` set g) + 1) \<in> set (possible_targets s)
          then Some (x, Max (snd ` set g) + 1)
          else None)"
    using group_end_column[of g x s] by blast
next
  fix g :: "cell list" assume "length g < 2"
  then show "group_end s g = None" by (rule group_end_short)
next
  fix gs1 :: "cell list list" and g :: "cell list" and gs2 :: "cell list list" and c :: cell
  assume "group_hits u = gs1 @ g # gs2 \<and> (\<forall>g'\<in>set gs1. group_end s g' = None) \<and>
       group_end s g = Some c"
  then show "target_mode_guess s u k = Inr c"
    using target_mode_group_end[of u gs1 g gs2 s c k] by blast
next
  fix x y :: int
  show "get_adjacent_positions s x y =
       filter (\<lambda>n. in_board (board_size s) n \<and> n \<in> set (possible_targets s))
         [(x, y + 1), (x + 1, y), (x, y - 1), (x - 1, y)]"
    by (simp add: get_adjacent_positions_def neighbours4_def)
next
  fix u1 :: "cell list" and h :: cell and u2 :: "cell list" and a :: cell and as :: "cell list"
  assume a: "(\<forall>g\<in>set (group_hits u). group_end s g = None) \<and> u = u1 @ h # u2 \<and>
       (\<forall>h'\<in>set u1. get_adjacent_positions s (fst h') (snd h') = []) \<and>
       get_adjacent_positions s (fst h) (snd h) = a # as \<and>
       rect (heat_map s) (board_size s)"
  then have t: "target_mode_guess s u k = max_by_heat (heat_map s) a as"
    using target_mode_best_adjacent[of u s u1 h u2 a as k] by blast
  have "list_all (in_board (board_size s)) (a # as)"
    using get_adjacent_positions_on_board[of s "fst h" "snd h"] a by simp
  from max_by_heat_first[OF _ this, of "heat_map s"] a
  show "\<exists>c v pre post.
          target_mode_guess s u k = Inr c \<and> a # as = pre @ c # post \<and>
          heat_lookup (heat_map s) c = Some v \<and>
          (\<forall>p\<in>set pre. \<exists>w. heat_lookup (heat_map s) p = Some w \<and> w < v) \<and>
          (\<forall>p\<in>set post. \<exists>w. heat_lookup (heat_map s) p = Some w \<and> w \<le> v)"
    unfolding t by blast
next
  assume "(\<forall>g\<in>set (group_hits u). group_end s g = None) \<and>
     (\<forall>h\<in>set u. get_adjacent_positions s (fst h) (snd h) = [])"
  then show "target_mode_guess s u k = hunt_mode s k"
    using target_mode_fallback[of u s k] by blast
next
  assume "possible_targets s \<noteq> [] \<and> list_all (in_board (board_size s)) (possible_targets s)"
  then have "hunt_candidates s \<noteq> []" using hunt_candidates_nonempty[of s] by blast
  then show "target_mode_guess s u k = target_mode_guess s u k'"
    by (rule target_mode_no_randomness)
qed

text \<open>
  The claim's own example: after hits at \<open>(3, 4)\<close> and \<open>(4, 4)\<close> on a fresh 10 by 10 board
  the guess is \<open>(2, 4)\<close>, the cell before the lowest end.
\<close>

theorem target_mode_fixed_order_witness:
  "unsunk_hits hits_in_row = [(3, 4), (4, 4)] \<and> misses hits_in_row = [] \<and>
   group_hits (unsunk_hits hits_in_row) = [[(3, 4), (4, 4)]] \<and>
   group_end hits_in_row [(3, 4), (4, 4)] = Some (2, 4) \<and>
   target_mode_guess hits_in_row (unsunk_hits hits_in_row) 0 = Inr (2, 4) \<and>
   fst (hunt_make_guess hits_in_row 0) = Inr (Some (2, 4))"
proof -
  have u: "unsunk_hits hits_in_row = [(3, 4), (4, 4)]"
    by (simp add: unsunk_hits_none_sunk hits_in_row_fields)
  have t: "(2, 4) \<in> set (possible_targets hits_in_row)"
    unfolding hits_in_row_fields by simp
  have gh: "group_hits (unsunk_hits hits_in_row) = [[(3, 4), (4, 4)]]"
    unfolding u by (rule group_hits_row_example)
  note T = target_mode_fixed_order[of hits_in_row "unsunk_hits hits_in_row" 0 0]
  have row: "2 \<le> length [(3::int, 4::int), (4, 4)] \<and> (\<forall>p\<in>set [(3::int, 4::int), (4, 4)]. snd p = 4)"
    by simp
  have ge: "group_end hits_in_row [(3, 4), (4, 4)] = Some (2, 4)"
    using T[THEN conjunct1, rule_format, OF row] t by (simp add: Min_Max_3_4)
  have "group_hits (unsunk_hits hits_in_row) = [] @ [(3, 4), (4, 4)] # [] \<and>
        (\<forall>g'\<in>set []. group_end hits_in_row g' = None) \<and>
        group_end hits_in_row [(3, 4), (4, 4)] = Some (2, 4)"
    using gh ge by simp
  then have tm: "target_mode_guess hits_in_row (unsunk_hits hits_in_row) 0 = Inr (2, 4)"
    using T[THEN conjunct2, THEN conjunct2, THEN conjunct2, THEN conjunct1, rule_format] by blast
  have "possible_targets hits_in_row \<noteq> []" using t by auto
  then have g: "fst (hunt_make_guess hits_in_row 0) = Inr (Some (2, 4))"
    using hunt_make_guess_target_mode[of hits_in_row 0] tm u
    by (simp add: hits_in_row_fields)
  show ?thesis using u gh ge tm g by (simp add: hits_in_row_fields)
qed

text \<open>
  C7 as stated fails: with a miss at \<open>(1, 4)\<close> before the two hits, both \<open>(2, 4)\<close> and
  \<open>(5, 4)\<close> are targets beyond the ends of the group; the guess is \<open>(2, 4)\<close> with score 22,
  although \<open>(5, 4)\<close> has score 33.
\<close>

theorem target_mode_highest_score_counterexample:
  "fst (hunt_make_guess miss_then_hits_in_row 0) = Inr (Some (2, 4)) \<and>
   unsunk_hits miss_then_hits_in_row = [(3, 4), (4, 4)] \<and>
   (5, 4) \<in> set (possible_targets miss_then_hits_in_row) \<and>
   in_board (board_size miss_then_hits_in_row) (5, 4) \<and>
   heat_lookup (heat_map miss_then_hits_in_row) (2, 4) = Some 22 \<and>
   heat_lookup (heat_map miss_then_hits_in_row) (5, 4) = Some 33"
proof -
  let ?m = miss_then_hits_in_row
  let ?lit = "(BaseAI_init 10)\<lparr>hits := [(3, 4), (4, 4)], misses := [(1, 4)]\<rparr>"
  have u: "unsunk_hits ?m = [(3, 4), (4, 4)]"
    by (simp add: unsunk_hits_none_sunk miss_then_hits_in_row_fields)
  have t: "(2, 4) \<in> set (possible_targets ?m)" "(5, 4) \<in> set (possible_targets ?m)"
    unfolding miss_then_hits_in_row_fields by simp_all
  have g: "fst (hunt_make_guess ?m 0) = Inr (Some (2, 4))"
    using u t(1) by (rule row_pair_guess) (simp add: miss_then_hits_in_row_fields)
  have b: "in_board (board_size ?m) (2, 4)" "in_board (board_size ?m) (5, 4)"
    by (simp_all add: in_board_def miss_then_hits_in_row_fields)
  have c: "cell_score ?m c = cell_score ?lit c" for c
    by (rule cell_score_cong) (simp_all add: miss_then_hits_in_row_fields)
  have "heat_lookup (heat_map ?m) (2, 4) = Some 22"
    using heat_lookup_cell_score[OF miss_then_hits_in_row_fields(9) b(1)]
    by (simp add: c score_low_end_example)
  moreover have "heat_lookup (heat_map ?m) (5, 4) = Some 33"
    using heat_lookup_cell_score[OF miss_then_hits_in_row_fields(9) b(2)]
    by (simp add: c score_high_end_example)
  ultimately show ?thesis using g u t(2) b(2) by simp
qed

end
